theory Spec2Isabelle
  imports Main
begin

section \<open>The session notification hook (src/hooks/session-notification.ts)\<close>

text \<open>
  The hook keeps three collections keyed by session identifier (\<open>notifiedSessions\<close>,
  \<open>pendingTimers\<close>, \<open>sessionActivitySinceIdle\<close>), reacts to lifecycle events, and arms
  a timer whose callback, \<open>executeNotification\<close>, decides whether to notify.

  JavaScript runs the event handler and every stretch of \<open>executeNotification\<close> between
  two \<open>await\<close>s without interruption. The model therefore has one atomic step per
  such stretch: handling an event, a timer firing, the answer of the todo query
  arriving, and the answer of the notification command arriving. Between two steps any
  other step may happen.
\<close>

subsection \<open>Platform\<close>

datatype platform = Darwin | Linux | Win32 | Unsupported

text \<open>\<open>detectPlatform\<close>; the argument is what \<open>os.platform()\<close> returns.\<close>

definition detectPlatform :: "string \<Rightarrow> platform" where
  "detectPlatform p =
     (if p = ''darwin'' then Darwin
      else if p = ''linux'' then Linux
      else if p = ''win32'' then Win32
      else Unsupported)"

fun getDefaultSoundPath :: "platform \<Rightarrow> string" where
  "getDefaultSoundPath Darwin = ''/System/Library/Sounds/Glass.aiff''"
| "getDefaultSoundPath Linux = ''/usr/share/sounds/freedesktop/stereo/complete.oga''"
| "getDefaultSoundPath Win32 =
     ''C:'' @ [CHR 0x5C] @ ''Windows'' @ [CHR 0x5C] @ ''Media'' @ [CHR 0x5C] @ ''notify.wav''"
| "getDefaultSoundPath Unsupported = ''''"

subsection \<open>Configuration\<close>

text \<open>
  \<open>SessionNotificationConfig\<close>: every field is optional, so the caller may leave a key
  out, or supply it with the value \<open>undefined\<close>, or supply it with a value.
\<close>

datatype 'a field = Absent | Undefined | Value 'a

record SessionNotificationConfig =
  cfg_title :: "string field"
  cfg_message :: "string field"
  cfg_playSound :: "bool field"
  cfg_soundPath :: "string field"
  cfg_idleConfirmationDelay :: "int field"
  cfg_skipIfIncompleteTodos :: "bool field"

text \<open>
  \<open>mergedConfig\<close> is \<open>{ ...defaults, ...config }\<close>. The spread copies every key that is
  present, also one whose value is \<open>undefined\<close>, which then replaces the default; so a
  merged field can be \<open>undefined\<close>, written \<open>None\<close>.
\<close>

record mergedConfig =
  title :: "string option"
  message :: "string option"
  playSound :: "bool option"
  soundPath :: "string option"
  idleConfirmationDelay :: "int option"
  skipIfIncompleteTodos :: "bool option"

definition spread :: "'a \<Rightarrow> 'a field \<Rightarrow> 'a option" where
  "spread d v = (case v of Absent \<Rightarrow> Some d | Undefined \<Rightarrow> None | Value x \<Rightarrow> Some x)"

definition merge :: "string \<Rightarrow> SessionNotificationConfig \<Rightarrow> mergedConfig" where
  "merge defaultSoundPath config =
     \<lparr> title = spread ''OpenCode'' (cfg_title config),
       message = spread ''Agent is ready for input'' (cfg_message config),
       playSound = spread False (cfg_playSound config),
       soundPath = spread defaultSoundPath (cfg_soundPath config),
       idleConfirmationDelay = spread 1500 (cfg_idleConfirmationDelay config),
       skipIfIncompleteTodos = spread True (cfg_skipIfIncompleteTodos config) \<rparr>"

text \<open>A flag used as a condition: \<open>undefined\<close> and \<open>false\<close> are falsy.\<close>

definition truthyFlag :: "bool option \<Rightarrow> bool" where
  "truthyFlag b \<longleftrightarrow> b = Some True"

text \<open>What the closure returned by \<open>createSessionNotification\<close> captures for good.\<close>

record hook =
  currentPlatform :: platform
  merged :: mergedConfig

definition createSessionNotification :: "string \<Rightarrow> SessionNotificationConfig \<Rightarrow> hook" where
  "createSessionNotification os config =
     (let p = detectPlatform os
      in \<lparr> currentPlatform = p, merged = merge (getDefaultSoundPath p) config \<rparr>)"

subsection \<open>The todo query\<close>

record todo =
  content :: string
  status :: string
  priority :: string
  todo_id :: string

text \<open>
  What \<open>await ctx.client.session.todo(...)\<close> can give: the call rejects; the response
  has a \<open>data\<close> field holding the list; the response is the list itself (\<open>data\<close> is
  undefined, and \<open>response.data ?? response\<close> falls back to the response); or the
  response is some other value without a usable \<open>data\<close>, for which \<open>todos.some\<close> is not
  a function (or reading \<open>response.data\<close> already throws).
\<close>

datatype todo_response =
    Rejected
  | WithData "todo list"
  | Bare "todo list"
  | NoList

text \<open>The body of the \<open>try\<close> block of \<open>hasIncompleteTodos\<close>: \<open>Inl ()\<close> is a throw.\<close>

definition incomplete :: "todo \<Rightarrow> bool" where
  "incomplete t \<longleftrightarrow> status t \<noteq> ''completed'' \<and> status t \<noteq> ''cancelled''"

definition someIncomplete :: "todo list \<Rightarrow> bool" where
  "someIncomplete todos = (if todos = [] then False else list_ex incomplete todos)"

fun hasIncompleteTodos_try :: "todo_response \<Rightarrow> unit + bool" where
  "hasIncompleteTodos_try Rejected = Inl ()"
| "hasIncompleteTodos_try (WithData todos) = Inr (someIncomplete todos)"
| "hasIncompleteTodos_try (Bare todos) = Inr (someIncomplete todos)"
| "hasIncompleteTodos_try NoList = Inl ()"

definition hasIncompleteTodos :: "todo_response \<Rightarrow> bool" where
  "hasIncompleteTodos r = (case hasIncompleteTodos_try r of Inl _ \<Rightarrow> False | Inr b \<Rightarrow> b)"

text \<open>The task list a response carries, when it carries one.\<close>

fun retrieved :: "todo_response \<Rightarrow> todo list option" where
  "retrieved Rejected = None"
| "retrieved (WithData todos) = Some todos"
| "retrieved (Bare todos) = Some todos"
| "retrieved NoList = None"

subsection \<open>Events\<close>

text \<open>
  An event is a type string and an optional property bag. The handler reads
  \<open>properties.info.id\<close>, \<open>properties.info.sessionID\<close> and \<open>properties.sessionID\<close>, each
  through \<open>?.\<close> and a cast to \<open>string | undefined\<close>; \<open>None\<close> is undefined.
\<close>

record info =
  i_id :: "string option"
  i_sessionID :: "string option"

record properties =
  p_info :: "info option"
  p_sessionID :: "string option"

record event =
  ev_type :: string
  ev_properties :: "properties option"

text \<open>\<open>props?.info?.id\<close>, \<open>props?.info?.sessionID\<close>, \<open>props?.sessionID\<close>.\<close>

definition info_id :: "event \<Rightarrow> string option" where
  "info_id e = Option.bind (Option.bind (ev_properties e) p_info) i_id"

definition info_sessionID :: "event \<Rightarrow> string option" where
  "info_sessionID e = Option.bind (Option.bind (ev_properties e) p_info) i_sessionID"

definition props_sessionID :: "event \<Rightarrow> string option" where
  "props_sessionID e = Option.bind (ev_properties e) p_sessionID"

text \<open>\<open>if (sessionID)\<close>: undefined and the empty string are falsy.\<close>

fun truthy :: "string option \<Rightarrow> string option" where
  "truthy None = None"
| "truthy (Some s) = (if s = [] then None else Some s)"

subsection \<open>State\<close>

text \<open>
  A timer handle is what \<open>setTimeout\<close> returns; handles are numbered from 1 in the order
  of creation and all of them are truthy (\<open>if (timer)\<close> holds for every handle).
\<close>

type_synonym timer = nat

text \<open>
  Where a call of \<open>executeNotification\<close> is suspended: at
  \<open>await hasIncompleteTodos(...)\<close> or at \<open>await sendNotification(...)\<close>.
\<close>

datatype stage = AwaitTodo string | AwaitSend string

text \<open>The calls that leave the hook: the todo query and the two sink operations.\<close>

datatype call =
    SessionTodo string
  | SendNotification platform "string option" "string option"
  | PlaySound platform string

text \<open>
  A log entry records a call together with three observations the program itself does not
  store: the timer whose callback is making the call, the session of that callback, and
  whether that session was in \<open>notifiedSessions\<close> at the moment of the call.
\<close>

datatype entry = Entry (origin: timer) (session: string) (marked: bool) (call: call)

record state =
  notifiedSessions :: "string set"
  pendingTimers :: "string \<rightharpoonup> timer"
  sessionActivitySinceIdle :: "string set"
  timers :: "timer \<rightharpoonup> string"
  nextTimer :: timer
  routines :: "timer \<rightharpoonup> stage"
  log :: "entry list"

text \<open>
  \<open>timers\<close> is the runtime's table of live timeouts, each with the \<open>sessionID\<close> its callback
  captured; \<open>routines\<close> holds the suspended calls of \<open>executeNotification\<close>, keyed by the
  timer that started them; \<open>log\<close> is the sequence of outgoing calls so far.
\<close>

definition init :: state where
  "init = \<lparr> notifiedSessions = {}, pendingTimers = Map.empty, sessionActivitySinceIdle = {},
            timers = Map.empty, nextTimer = 1, routines = Map.empty, log = [] \<rparr>"

definition perform :: "timer \<Rightarrow> string \<Rightarrow> call \<Rightarrow> state \<Rightarrow> state" where
  "perform t sessionID c s =
     s\<lparr> log := log s @ [Entry t sessionID (sessionID \<in> notifiedSessions s) c] \<rparr>"

subsection \<open>The operations of the closure\<close>

definition clearTimeout :: "timer \<Rightarrow> state \<Rightarrow> state" where
  "clearTimeout t s = s\<lparr> timers := (timers s)(t := None) \<rparr>"

definition cancelPendingNotification :: "string \<Rightarrow> state \<Rightarrow> state" where
  "cancelPendingNotification sessionID s =
     (let s1 = (case pendingTimers s sessionID of
                  Some t \<Rightarrow> (clearTimeout t s)\<lparr> pendingTimers := (pendingTimers s)(sessionID := None) \<rparr>
                | None \<Rightarrow> s)
      in s1\<lparr> sessionActivitySinceIdle := insert sessionID (sessionActivitySinceIdle s1) \<rparr>)"

definition markSessionActivity :: "string \<Rightarrow> state \<Rightarrow> state" where
  "markSessionActivity sessionID s =
     (let s1 = cancelPendingNotification sessionID s
      in s1\<lparr> notifiedSessions := notifiedSessions s1 - {sessionID} \<rparr>)"

text \<open>
  \<open>setTimeout(() => executeNotification(sessionID), delay)\<close> followed by
  \<open>pendingTimers.set(sessionID, timer)\<close>.
\<close>

definition setTimeout :: "string \<Rightarrow> state \<Rightarrow> timer \<times> state" where
  "setTimeout sessionID s =
     (nextTimer s, s\<lparr> timers := (timers s)(nextTimer s \<mapsto> sessionID), nextTimer := Suc (nextTimer s) \<rparr>)"

text \<open>
  The \<open>session.idle\<close> branch of the handler from the guard on \<open>sessionID\<close> on: where a
  guard returns the state is unchanged, otherwise the activity flag is dropped and the
  timer armed.
\<close>

definition onIdle :: "string option \<Rightarrow> state \<Rightarrow> state" where
  "onIdle sessionID s =
     (case truthy sessionID of
        None \<Rightarrow> s
      | Some sid \<Rightarrow>
          if sid \<in> notifiedSessions s then s
          else if pendingTimers s sid \<noteq> None then s
          else
            (let s1 = s\<lparr> sessionActivitySinceIdle := sessionActivitySinceIdle s - {sid} \<rparr>;
                 (t, s2) = setTimeout sid s1
             in s2\<lparr> pendingTimers := (pendingTimers s2)(sid \<mapsto> t) \<rparr>))"

definition onActivity :: "string option \<Rightarrow> state \<Rightarrow> state" where
  "onActivity sessionID s =
     (case truthy sessionID of None \<Rightarrow> s | Some sid \<Rightarrow> markSessionActivity sid s)"

definition onDeleted :: "string option \<Rightarrow> state \<Rightarrow> state" where
  "onDeleted sessionID s =
     (case truthy sessionID of
        None \<Rightarrow> s
      | Some sid \<Rightarrow>
          (let s1 = cancelPendingNotification sid s;
               s2 = s1\<lparr> notifiedSessions := notifiedSessions s1 - {sid} \<rparr>
           in s2\<lparr> sessionActivitySinceIdle := sessionActivitySinceIdle s2 - {sid} \<rparr>))"

text \<open>
  The guards at the head of the \<open>session.idle\<close> branch, each of which returns from the
  handler: no identifier, already notified, or a timer already pending.
\<close>

definition idleReturns :: "string option \<Rightarrow> state \<Rightarrow> bool" where
  "idleReturns sessionID s =
     (case truthy sessionID of
        None \<Rightarrow> True
      | Some sid \<Rightarrow> sid \<in> notifiedSessions s \<or> pendingTimers s sid \<noteq> None)"

text \<open>
  The returned handler. The branch for \<open>session.updated\<close> and \<open>session.created\<close> returns;
  the \<open>session.idle\<close> branch returns from its guards and otherwise arms the timer and
  falls through to the tests for \<open>message.updated\<close> and \<open>session.deleted\<close>.
\<close>

definition handler :: "hook \<Rightarrow> event \<Rightarrow> state \<Rightarrow> state" where
  "handler h e s =
     (if currentPlatform h = Unsupported then s
      else if ev_type e = ''session.updated'' \<or> ev_type e = ''session.created''
        then onActivity (info_id e) s
      else if ev_type e = ''session.idle'' \<and> idleReturns (props_sessionID e) s then s
      else
        (let s1 = (if ev_type e = ''session.idle'' then onIdle (props_sessionID e) s else s);
             s2 = (if ev_type e = ''message.updated'' then onActivity (info_sessionID e) s1 else s1)
         in if ev_type e = ''session.deleted'' then onDeleted (info_id e) s2 else s2))"

subsection \<open>The confirmation routine\<close>

text \<open>
  From \<open>notifiedSessions.add(sessionID)\<close> to the first \<open>await\<close> of the \<open>try\<close> block:
  \<open>sendNotification\<close> is called and the routine is suspended on its promise.
\<close>

definition commitAndSend :: "hook \<Rightarrow> timer \<Rightarrow> string \<Rightarrow> state \<Rightarrow> state" where
  "commitAndSend h t sessionID s =
     (let s1 = s\<lparr> notifiedSessions := insert sessionID (notifiedSessions s) \<rparr>;
          s2 = perform t sessionID
                 (SendNotification (currentPlatform h) (title (merged h)) (message (merged h))) s1
      in s2\<lparr> routines := (routines s2)(t \<mapsto> AwaitSend sessionID) \<rparr>)"

text \<open>\<open>executeNotification\<close> from its first line to its first \<open>await\<close> (or its return).\<close>

definition executeNotification :: "hook \<Rightarrow> timer \<Rightarrow> string \<Rightarrow> state \<Rightarrow> state" where
  "executeNotification h t sessionID s =
     (let s1 = s\<lparr> pendingTimers := (pendingTimers s)(sessionID := None) \<rparr>
      in if sessionID \<in> sessionActivitySinceIdle s1
           then s1\<lparr> sessionActivitySinceIdle := sessionActivitySinceIdle s1 - {sessionID} \<rparr>
         else if sessionID \<in> notifiedSessions s1 then s1
         else if truthyFlag (skipIfIncompleteTodos (merged h))
           then (let s2 = perform t sessionID (SessionTodo sessionID) s1
                 in s2\<lparr> routines := (routines s2)(t \<mapsto> AwaitTodo sessionID) \<rparr>)
         else commitAndSend h t sessionID s1)"

text \<open>The routine resumed with the answer of the todo query.\<close>

definition afterTodo :: "hook \<Rightarrow> timer \<Rightarrow> string \<Rightarrow> todo_response \<Rightarrow> state \<Rightarrow> state" where
  "afterTodo h t sessionID r s =
     (if hasIncompleteTodos r then s else commitAndSend h t sessionID s)"

text \<open>
  The rest of the \<open>try\<close> block, resumed with the outcome of \<open>sendNotification\<close>.
  \<open>sendRejected\<close> says that the notification command failed, \<open>soundRejected\<close> that the
  promise of \<open>playSound\<close> rejects. With an undefined title or message
  \<open>sendNotification\<close> throws at \<open>title.replace\<close> or \<open>message.replace\<close>, so its promise
  rejects whatever the command would do. The result pairs whether the block threw with
  the state it left.
\<close>

definition tryDispatch :: "hook \<Rightarrow> timer \<Rightarrow> string \<Rightarrow> bool \<Rightarrow> bool \<Rightarrow> state \<Rightarrow> bool \<times> state" where
  "tryDispatch h t sessionID sendRejected soundRejected s =
     (if sendRejected \<or> title (merged h) = None \<or> message (merged h) = None then (True, s)
      else if truthyFlag (playSound (merged h))
        then (case truthy (soundPath (merged h)) of
                None \<Rightarrow> (False, s)
              | Some path \<Rightarrow>
                  (soundRejected, perform t sessionID (PlaySound (currentPlatform h) path) s))
      else (False, s))"

text \<open>
  \<open>try { ... } catch {}\<close>: \<open>Inl\<close> would be an exception leaving \<open>executeNotification\<close>.
\<close>

definition afterSend :: "hook \<Rightarrow> timer \<Rightarrow> string \<Rightarrow> bool \<Rightarrow> bool \<Rightarrow> state \<Rightarrow> unit + state" where
  "afterSend h t sessionID sendRejected soundRejected s =
     (case tryDispatch h t sessionID sendRejected soundRejected s of
        (threw, s1) \<Rightarrow> Inr s1)"

subsection \<open>Executions\<close>

text \<open>
  One label per atomic step. A label the runtime cannot deliver (a timer that is not
  live, an answer for a routine that is not waiting for it) leaves the state unchanged.
  Time is not measured: a live timer may fire at any later step, and an answer may arrive
  at any step after the call.
\<close>

datatype label =
    Handle event
  | Fire timer
  | TodoDone timer todo_response
  | SendDone timer bool bool

fun step :: "hook \<Rightarrow> label \<Rightarrow> state \<Rightarrow> state" where
  "step h (Handle e) s = handler h e s"
| "step h (Fire t) s =
     (case timers s t of
        None \<Rightarrow> s
      | Some sessionID \<Rightarrow> executeNotification h t sessionID (s\<lparr> timers := (timers s)(t := None) \<rparr>))"
| "step h (TodoDone t r) s =
     (case routines s t of
        Some (AwaitTodo sessionID) \<Rightarrow>
          afterTodo h t sessionID r (s\<lparr> routines := (routines s)(t := None) \<rparr>)
      | _ \<Rightarrow> s)"
| "step h (SendDone t sendRejected soundRejected) s =
     (case routines s t of
        Some (AwaitSend sessionID) \<Rightarrow>
          (case afterSend h t sessionID sendRejected soundRejected
                  (s\<lparr> routines := (routines s)(t := None) \<rparr>) of
             Inl _ \<Rightarrow> s
           | Inr s1 \<Rightarrow> s1)
      | _ \<Rightarrow> s)"

fun run :: "hook \<Rightarrow> label list \<Rightarrow> state \<Rightarrow> state" where
  "run h [] s = s"
| "run h (l # ls) s = run h ls (step h l s)"

subsection \<open>Vocabulary of the properties\<close>

text \<open>Events as the host builds them, one constructor per kind the handler knows.\<close>

definition sessionCreated :: "string \<Rightarrow> event" where
  "sessionCreated sid =
     \<lparr> ev_type = ''session.created'',
       ev_properties = Some \<lparr> p_info = Some \<lparr> i_id = Some sid, i_sessionID = None \<rparr>,
                               p_sessionID = None \<rparr> \<rparr>"

definition sessionUpdated :: "string \<Rightarrow> event" where
  "sessionUpdated sid =
     \<lparr> ev_type = ''session.updated'',
       ev_properties = Some \<lparr> p_info = Some \<lparr> i_id = Some sid, i_sessionID = None \<rparr>,
                               p_sessionID = None \<rparr> \<rparr>"

definition messageUpdated :: "string \<Rightarrow> event" where
  "messageUpdated sid =
     \<lparr> ev_type = ''message.updated'',
       ev_properties = Some \<lparr> p_info = Some \<lparr> i_id = None, i_sessionID = Some sid \<rparr>,
                               p_sessionID = None \<rparr> \<rparr>"

definition sessionIdle :: "string \<Rightarrow> event" where
  "sessionIdle sid =
     \<lparr> ev_type = ''session.idle'',
       ev_properties = Some \<lparr> p_info = None, p_sessionID = Some sid \<rparr> \<rparr>"

definition sessionDeleted :: "string \<Rightarrow> event" where
  "sessionDeleted sid =
     \<lparr> ev_type = ''session.deleted'',
       ev_properties = Some \<lparr> p_info = Some \<lparr> i_id = Some sid, i_sessionID = None \<rparr>,
                               p_sessionID = None \<rparr> \<rparr>"

text \<open>Any event of a kind, by the field in which the handler looks for the session.\<close>

definition isIdleFor :: "string \<Rightarrow> event \<Rightarrow> bool" where
  "isIdleFor sid e \<longleftrightarrow> ev_type e = ''session.idle'' \<and> props_sessionID e = Some sid"

definition isActivityFor :: "string \<Rightarrow> event \<Rightarrow> bool" where
  "isActivityFor sid e \<longleftrightarrow>
     (ev_type e = ''session.created'' \<or> ev_type e = ''session.updated'') \<and> info_id e = Some sid
     \<or> ev_type e = ''message.updated'' \<and> info_sessionID e = Some sid"

definition isDeletedFor :: "string \<Rightarrow> event \<Rightarrow> bool" where
  "isDeletedFor sid e \<longleftrightarrow> ev_type e = ''session.deleted'' \<and> info_id e = Some sid"

fun isActivity :: "string \<Rightarrow> label \<Rightarrow> bool" where
  "isActivity sid (Handle e) = isActivityFor sid e"
| "isActivity sid (Fire t) = False"
| "isActivity sid (TodoDone t r) = False"
| "isActivity sid (SendDone t a b) = False"

text \<open>The session identifier an event carries, and the session a step works for.\<close>

definition eventSession :: "event \<Rightarrow> string option" where
  "eventSession e =
     (if ev_type e = ''session.updated'' \<or> ev_type e = ''session.created'' then info_id e
      else if ev_type e = ''session.idle'' then props_sessionID e
      else if ev_type e = ''message.updated'' then info_sessionID e
      else if ev_type e = ''session.deleted'' then info_id e
      else None)"

fun labelSession :: "state \<Rightarrow> label \<Rightarrow> string option" where
  "labelSession s (Handle e) = eventSession e"
| "labelSession s (Fire t) = timers s t"
| "labelSession s (TodoDone t r) =
     (case routines s t of Some (AwaitTodo sid) \<Rightarrow> Some sid | _ \<Rightarrow> None)"
| "labelSession s (SendDone t a b) =
     (case routines s t of Some (AwaitSend sid) \<Rightarrow> Some sid | _ \<Rightarrow> None)"

text \<open>The three pieces of per-session state.\<close>

definition sessionState :: "state \<Rightarrow> string \<Rightarrow> bool \<times> timer option \<times> bool" where
  "sessionState s sid =
     (sid \<in> notifiedSessions s, pendingTimers s sid, sid \<in> sessionActivitySinceIdle s)"

text \<open>The same with the handle left out: only whether a timer is pending.\<close>

definition sessionFlags :: "state \<Rightarrow> string \<Rightarrow> bool \<times> bool \<times> bool" where
  "sessionFlags s sid =
     (sid \<in> notifiedSessions s, pendingTimers s sid \<noteq> None, sid \<in> sessionActivitySinceIdle s)"

text \<open>The part of the log that one run of the confirmation routine wrote.\<close>

fun isSend :: "call \<Rightarrow> bool" where
  "isSend (SendNotification p ti m) = True"
| "isSend (SessionTodo sid) = False"
| "isSend (PlaySound p path) = False"

definition entriesBy :: "timer \<Rightarrow> entry list \<Rightarrow> entry list" where
  "entriesBy t lg = filter (\<lambda>e. origin e = t) lg"

definition notificationsBy :: "timer \<Rightarrow> entry list \<Rightarrow> entry list" where
  "notificationsBy t lg = filter (\<lambda>e. isSend (call e)) (entriesBy t lg)"

text \<open>
  A log is in dispatch order when every \<open>sendNotification\<close> call was made with the
  session already in \<open>notifiedSessions\<close>, and every \<open>playSound\<close> call comes after the
  \<open>sendNotification\<close> call of the same run of the routine. \<open>seen\<close> collects the runs that
  have sent.
\<close>

fun dispatchOrder :: "timer set \<Rightarrow> entry list \<Rightarrow> bool" where
  "dispatchOrder seen [] = True"
| "dispatchOrder seen (e # es) =
     (case call e of
        SendNotification p ti m \<Rightarrow> marked e \<and> dispatchOrder (insert (origin e) seen) es
      | PlaySound p path \<Rightarrow> origin e \<in> seen \<and> dispatchOrder seen es
      | SessionTodo sid \<Rightarrow> dispatchOrder seen es)"

text \<open>The hook as the plugin creates it on Linux with no configuration supplied.\<close>

definition noConfig :: SessionNotificationConfig where
  "noConfig = \<lparr> cfg_title = Absent, cfg_message = Absent, cfg_playSound = Absent,
                cfg_soundPath = Absent, cfg_idleConfirmationDelay = Absent,
                cfg_skipIfIncompleteTodos = Absent \<rparr>"

definition linuxHook :: hook where
  "linuxHook = createSessionNotification ''linux'' noConfig"

text \<open>The same hook with the sound switched on and the todo gate switched off.\<close>

definition soundHook :: hook where
  "soundHook = createSessionNotification ''linux''
     (noConfig\<lparr> cfg_playSound := Value True, cfg_skipIfIncompleteTodos := Value False \<rparr>)"

text \<open>
  The bookkeeping that every execution keeps: \<open>pendingTimers\<close> and the live timeouts
  mirror each other; handles in use are below \<open>nextTimer\<close>; a timer that started a
  routine or wrote to the log is no longer live; a session with the activity flag has no
  timer; and the empty identifier never enters the state.
\<close>

definition consistent :: "state \<Rightarrow> bool" where
  "consistent s \<longleftrightarrow>
     (\<forall>sid t. pendingTimers s sid = Some t \<longleftrightarrow> timers s t = Some sid) \<and>
     (\<forall>t sid. timers s t = Some sid \<longrightarrow> t < nextTimer s \<and> sid \<noteq> []) \<and>
     (\<forall>t. routines s t \<noteq> None \<longrightarrow> t < nextTimer s \<and> timers s t = None) \<and>
     (\<forall>e \<in> set (log s). origin e < nextTimer s \<and> timers s (origin e) = None) \<and>
     (\<forall>sid \<in> sessionActivitySinceIdle s. \<forall>t. timers s t \<noteq> Some sid) \<and>
     [] \<notin> notifiedSessions s \<and> [] \<notin> sessionActivitySinceIdle s \<and>
     (\<forall>t. routines s t \<noteq> Some (AwaitTodo []) \<and> routines s t \<noteq> Some (AwaitSend []))"

text \<open>The runs of the routine that have called \<open>sendNotification\<close>.\<close>

definition senders :: "entry list \<Rightarrow> timer set" where
  "senders lg = {origin e | e. e \<in> set lg \<and> isSend (call e)}"

text \<open>
  What every execution keeps about dispatch: the log is in dispatch order, and a routine
  suspended on \<open>sendNotification\<close> has made that call.
\<close>

definition dispatching :: "state \<Rightarrow> bool" where
  "dispatching s \<longleftrightarrow>
     dispatchOrder {} (log s) \<and>
     (\<forall>t sid. routines s t = Some (AwaitSend sid) \<longrightarrow> t \<in> senders (log s))"


text \<open>
  A timer armed for a session whose callback has not run: it is live for that session or
  was cancelled, no routine runs under its name and it wrote nothing to the log. A timer
  is dead when moreover it is not live.
\<close>

definition unstarted :: "string \<Rightarrow> timer \<Rightarrow> state \<Rightarrow> bool" where
  "unstarted sid t s \<longleftrightarrow>
     t < nextTimer s \<and> (timers s t = None \<or> timers s t = Some sid) \<and>
     routines s t = None \<and> entriesBy t (log s) = []"

definition dead :: "timer \<Rightarrow> state \<Rightarrow> bool" where
  "dead t s \<longleftrightarrow>
     t < nextTimer s \<and> timers s t = None \<and> routines s t = None \<and> entriesBy t (log s) = []"

text \<open>
  An idle episode begins: a \<open>session.idle\<close> event for the session arrives while no timer
  is pending for it and it is not in \<open>notifiedSessions\<close>.
\<close>

fun beginsEpisode :: "string \<Rightarrow> state \<Rightarrow> label \<Rightarrow> bool" where
  "beginsEpisode sid s (Handle e) =
     (isIdleFor sid e \<and> pendingTimers s sid = None \<and> sid \<notin> notifiedSessions s)"
| "beginsEpisode sid s (Fire t) = False"
| "beginsEpisode sid s (TodoDone t r) = False"
| "beginsEpisode sid s (SendDone t a b) = False"

text \<open>
  Every run of the routine has notified at most once, and not yet while it waits for the
  todo query.
\<close>

definition once :: "state \<Rightarrow> bool" where
  "once s \<longleftrightarrow>
     (\<forall>t. length (notificationsBy t (log s)) \<le> 1) \<and>
     (\<forall>t sid. routines s t = Some (AwaitTodo sid) \<longrightarrow> notificationsBy t (log s) = [])"

text \<open>
  What holds in addition when \<open>skipIfIncompleteTodos\<close> is off: no routine waits for the
  todo query, and a session with a live timer is not in \<open>notifiedSessions\<close>.
\<close>

definition ungated :: "state \<Rightarrow> bool" where
  "ungated s \<longleftrightarrow>
     (\<forall>t sid. routines s t \<noteq> Some (AwaitTodo sid)) \<and>
     (\<forall>t sid. timers s t = Some sid \<longrightarrow> sid \<notin> notifiedSessions s)"

text \<open>
  The routine started by a timer is past its decision, and \<open>es\<close> is what it sent.
\<close>

definition sent :: "timer \<Rightarrow> entry list \<Rightarrow> state \<Rightarrow> bool" where
  "sent t es s \<longleftrightarrow>
     t < nextTimer s \<and> timers s t = None \<and> (\<forall>sid. routines s t \<noteq> Some (AwaitTodo sid)) \<and>
     notificationsBy t (log s) = es"

text \<open>
  Deletion events as labels, the steps that deliver an event naming a session, and the
  notifications sent for one session.
\<close>

fun isDeletion :: "string \<Rightarrow> label \<Rightarrow> bool" where
  "isDeletion sid (Handle e) = isDeletedFor sid e"
| "isDeletion sid (Fire t) = False"
| "isDeletion sid (TodoDone t r) = False"
| "isDeletion sid (SendDone t a b) = False"

fun isEventFor :: "string \<Rightarrow> label \<Rightarrow> bool" where
  "isEventFor sid (Handle e) = (eventSession e = Some sid)"
| "isEventFor sid (Fire t) = False"
| "isEventFor sid (TodoDone t r) = False"
| "isEventFor sid (SendDone t a b) = False"

definition notificationsFor :: "string \<Rightarrow> entry list \<Rightarrow> entry list" where
  "notificationsFor sid lg = filter (\<lambda>e. session e = sid \<and> isSend (call e)) lg"

section \<open>Basic facts\<close>

lemma handler_cases:
  "handler h e s =
     (if currentPlatform h = Unsupported then s
      else if ev_type e = ''session.updated'' \<or> ev_type e = ''session.created''
        then onActivity (info_id e) s
      else if ev_type e = ''session.idle'' then onIdle (props_sessionID e) s
      else if ev_type e = ''message.updated'' then onActivity (info_sessionID e) s
      else if ev_type e = ''session.deleted'' then onDeleted (info_id e) s
      else s)"
proof -
  have "idleReturns v s \<Longrightarrow> onIdle v s = s" for v
    by (cases "truthy v") (auto simp: idleReturns_def onIdle_def)
  then show ?thesis by (simp add: handler_def Let_def)
qed

lemma truthy_Some: "truthy v = Some sid \<longleftrightarrow> v = Some sid \<and> sid \<noteq> []"
  by (cases v) auto

lemma cancel_None:
  "pendingTimers s sid = None \<Longrightarrow>
   cancelPendingNotification sid s =
     s\<lparr> sessionActivitySinceIdle := insert sid (sessionActivitySinceIdle s) \<rparr>"
  by (simp add: cancelPendingNotification_def)

lemma cancel_Some:
  "pendingTimers s sid = Some t \<Longrightarrow>
   cancelPendingNotification sid s =
     s\<lparr> timers := (timers s)(t := None),
        pendingTimers := (pendingTimers s)(sid := None),
        sessionActivitySinceIdle := insert sid (sessionActivitySinceIdle s) \<rparr>"
  by (simp add: cancelPendingNotification_def clearTimeout_def)

lemma onIdle_arm:
  "truthy v = Some sid \<Longrightarrow> sid \<notin> notifiedSessions s \<Longrightarrow> pendingTimers s sid = None \<Longrightarrow>
   onIdle v s =
     s\<lparr> sessionActivitySinceIdle := sessionActivitySinceIdle s - {sid},
        timers := (timers s)(nextTimer s \<mapsto> sid),
        nextTimer := Suc (nextTimer s),
        pendingTimers := (pendingTimers s)(sid \<mapsto> nextTimer s) \<rparr>"
  by (simp add: onIdle_def setTimeout_def)

lemma onIdle_ignored:
  "\<not> (\<exists>sid. truthy v = Some sid \<and> sid \<notin> notifiedSessions s \<and> pendingTimers s sid = None) \<Longrightarrow>
   onIdle v s = s"
  by (cases "truthy v") (auto simp: onIdle_def)

lemma run_append: "run h (ls @ ls') s = run h ls' (run h ls s)"
  by (induction ls arbitrary: s) simp_all

lemma run_invariant:
  assumes "P s" and "\<And>s l. P s \<Longrightarrow> P (step h l s)"
  shows "P (run h ls s)"
  using assms(1) by (induction ls arbitrary: s) (simp_all add: assms(2))

lemma handler_kinds:
  obtains (same) "handler h e s = s"
  | (act) v where "handler h e s = onActivity v s"
  | (idle) "ev_type e = ''session.idle''" "handler h e s = onIdle (props_sessionID e) s"
  | (del) v where "handler h e s = onDeleted v s"
proof (cases "currentPlatform h = Unsupported")
  case True
  then show thesis using same by (simp add: handler_cases)
next
  case sup: False
  show thesis
  proof (cases "ev_type e = ''session.updated'' \<or> ev_type e = ''session.created''")
    case True
    then have "handler h e s = onActivity (info_id e) s" using sup by (simp add: handler_cases)
    then show thesis by (rule act)
  next
    case na: False
    show thesis
    proof (cases "ev_type e = ''session.idle''")
      case True
      then have "handler h e s = onIdle (props_sessionID e) s"
        using sup by (simp add: handler_cases)
      then show thesis using True by (simp add: idle)
    next
      case ni: False
      show thesis
      proof (cases "ev_type e = ''message.updated''")
        case True
        then have "handler h e s = onActivity (info_sessionID e) s"
          using sup by (simp add: handler_cases)
        then show thesis by (rule act)
      next
        case nm: False
        show thesis
        proof (cases "ev_type e = ''session.deleted''")
          case True
          then have "handler h e s = onDeleted (info_id e) s"
            using sup by (simp add: handler_cases)
          then show thesis by (rule del)
        next
          case False
          then have "handler h e s = s" using sup na ni nm by (simp add: handler_cases)
          then show thesis by (rule same)
        qed
      qed
    qed
  qed
qed

subsection \<open>What the handler leaves alone\<close>

lemma log_handler: "log (handler h e s) = log s"
proof -
  have c: "log (cancelPendingNotification sid s') = log s'" for sid s'
    by (cases "pendingTimers s' sid") (simp_all add: cancel_None cancel_Some)
  have a: "log (onActivity v s') = log s'" for v s'
    by (cases "truthy v") (simp_all add: onActivity_def markSessionActivity_def Let_def c)
  have d: "log (onDeleted v s') = log s'" for v s'
    by (cases "truthy v") (simp_all add: onDeleted_def Let_def c)
  have i: "log (onIdle v s') = log s'" for v s'
    by (cases "truthy v") (simp_all add: onIdle_def setTimeout_def)
  show ?thesis by (simp add: handler_cases a d i)
qed

lemma routines_handler: "routines (handler h e s) = routines s"
proof -
  have c: "routines (cancelPendingNotification sid s') = routines s'" for sid s'
    by (cases "pendingTimers s' sid") (simp_all add: cancel_None cancel_Some)
  have a: "routines (onActivity v s') = routines s'" for v s'
    by (cases "truthy v") (simp_all add: onActivity_def markSessionActivity_def Let_def c)
  have d: "routines (onDeleted v s') = routines s'" for v s'
    by (cases "truthy v") (simp_all add: onDeleted_def Let_def c)
  have i: "routines (onIdle v s') = routines s'" for v s'
    by (cases "truthy v") (simp_all add: onIdle_def setTimeout_def)
  show ?thesis by (simp add: handler_cases a d i)
qed

text \<open>The handler only removes timers or adds the fresh one.\<close>

lemma timers_handler:
  "nextTimer s \<le> nextTimer (handler h e s)
   \<and> (t < nextTimer s \<longrightarrow> timers (handler h e s) t = timers s t \<or> timers (handler h e s) t = None)"
proof -
  have c: "nextTimer (cancelPendingNotification sid s') = nextTimer s'
      \<and> (timers (cancelPendingNotification sid s') t = timers s' t
          \<or> timers (cancelPendingNotification sid s') t = None)" for sid s'
    by (cases "pendingTimers s' sid") (simp_all add: cancel_None cancel_Some)
  have a: "nextTimer (onActivity v s') = nextTimer s'
      \<and> (timers (onActivity v s') t = timers s' t \<or> timers (onActivity v s') t = None)" for v s'
    using c by (cases "truthy v") (simp_all add: onActivity_def markSessionActivity_def Let_def)
  have d: "nextTimer (onDeleted v s') = nextTimer s'
      \<and> (timers (onDeleted v s') t = timers s' t \<or> timers (onDeleted v s') t = None)" for v s'
    using c by (cases "truthy v") (simp_all add: onDeleted_def Let_def)
  have i: "nextTimer s' \<le> nextTimer (onIdle v s')
      \<and> (t < nextTimer s' \<longrightarrow> timers (onIdle v s') t = timers s' t)" for v s'
    by (cases "truthy v") (auto simp: onIdle_def setTimeout_def)
  show ?thesis using a [of "info_id e" s] a [of "info_sessionID e" s] d [of "info_id e" s]
      i [of s "props_sessionID e"]
    by (simp add: handler_cases)
qed

lemma entriesBy_snoc:
  "entriesBy t (lg @ [e]) = (if origin e = t then entriesBy t lg @ [e] else entriesBy t lg)"
  by (simp add: entriesBy_def)

lemma notified_handler:
  "notifiedSessions (handler h e s) \<subseteq> notifiedSessions s"
proof -
  have c: "notifiedSessions (cancelPendingNotification sid s') = notifiedSessions s'" for sid s'
    by (cases "pendingTimers s' sid") (simp_all add: cancel_None cancel_Some)
  have a: "notifiedSessions (onActivity v s') \<subseteq> notifiedSessions s'" for v s'
    by (cases "truthy v") (auto simp: onActivity_def markSessionActivity_def Let_def c)
  have d: "notifiedSessions (onDeleted v s') \<subseteq> notifiedSessions s'" for v s'
    by (cases "truthy v") (auto simp: onDeleted_def Let_def c)
  have i: "notifiedSessions (onIdle v s') = notifiedSessions s'" for v s'
    by (cases "truthy v") (simp_all add: onIdle_def setTimeout_def)
  show ?thesis by (cases rule: handler_kinds [of h e s]) (simp_all add: a d i)
qed

lemma notificationsBy_snoc:
  "notificationsBy t (lg @ [e]) =
     (if origin e = t \<and> isSend (call e) then notificationsBy t lg @ [e]
      else notificationsBy t lg)"
  by (simp add: notificationsBy_def entriesBy_def)

lemma notificationsBy_entriesBy: "entriesBy t lg = [] \<Longrightarrow> notificationsBy t lg = []"
  by (simp add: notificationsBy_def)

subsection \<open>Unsupported platforms never leave the initial state\<close>

lemma step_init_unsupported: "currentPlatform h = Unsupported \<Longrightarrow> step h l init = init"
  by (cases l) (simp_all add: handler_def init_def)

lemma run_init_unsupported: "currentPlatform h = Unsupported \<Longrightarrow> run h ls init = init"
  by (induction ls) (simp_all add: step_init_unsupported)

subsection \<open>The bookkeeping invariant\<close>

lemma consistent_init: "consistent init"
  by (simp add: consistent_def init_def)

lemma consistent_pending_None:
  "consistent s \<Longrightarrow> pendingTimers s sid = None \<longleftrightarrow> (\<forall>t. timers s t \<noteq> Some sid)"
  unfolding consistent_def by (metis option.exhaust option.distinct(1))

lemma consistent_cancel:
  assumes "consistent s" and "sid \<noteq> []"
  shows "consistent (cancelPendingNotification sid s)"
proof (cases "pendingTimers s sid")
  case None
  then have "\<forall>t. timers s t \<noteq> Some sid" using assms by (simp add: consistent_pending_None)
  then show ?thesis using assms unfolding consistent_def cancel_None [OF None]
    by simp
next
  case (Some t)
  then have t: "timers s t = Some sid" using assms unfolding consistent_def by blast
  have other: "\<forall>t'. t' \<noteq> t \<longrightarrow> timers s t' \<noteq> Some sid"
    using assms Some unfolding consistent_def by (metis option.inject)
  show ?thesis using assms t other unfolding consistent_def cancel_Some [OF Some]
    by auto
qed

lemma consistent_shrink:
  "consistent s \<Longrightarrow> A \<subseteq> sessionActivitySinceIdle s \<Longrightarrow> N \<subseteq> notifiedSessions s \<Longrightarrow>
   consistent (s\<lparr> notifiedSessions := N, sessionActivitySinceIdle := A \<rparr>)"
  unfolding consistent_def by auto

lemma consistent_less_notified:
  "consistent s \<Longrightarrow> consistent (s\<lparr> notifiedSessions := notifiedSessions s - N \<rparr>)"
  unfolding consistent_def by auto

lemma consistent_less_activity:
  "consistent s \<Longrightarrow>
   consistent (s\<lparr> sessionActivitySinceIdle := sessionActivitySinceIdle s - A \<rparr>)"
  unfolding consistent_def by auto

lemma consistent_onActivity: "consistent s \<Longrightarrow> consistent (onActivity v s)"
  by (cases "truthy v")
    (simp_all add: onActivity_def markSessionActivity_def Let_def truthy_Some
      consistent_cancel consistent_less_notified)

lemma consistent_onDeleted: "consistent s \<Longrightarrow> consistent (onDeleted v s)"
  by (cases "truthy v")
    (simp_all add: onDeleted_def Let_def truthy_Some consistent_cancel consistent_shrink)

lemma consistent_onIdle:
  assumes "consistent s"
  shows "consistent (onIdle v s)"
proof (cases "\<exists>sid. truthy v = Some sid \<and> sid \<notin> notifiedSessions s \<and> pendingTimers s sid = None")
  case False
  then show ?thesis using assms by (simp add: onIdle_ignored)
next
  case True
  then obtain sid where sid: "truthy v = Some sid" "sid \<notin> notifiedSessions s"
    "pendingTimers s sid = None" by blast
  have none: "\<forall>t. timers s t \<noteq> Some sid"
    using assms sid(3) by (simp add: consistent_pending_None)
  have ne: "sid \<noteq> []" using sid(1) by (simp add: truthy_Some)
  have fresh: "timers s (nextTimer s) = None"
    using assms unfolding consistent_def by (metis less_irrefl option.exhaust)
  show ?thesis using assms none ne fresh
    unfolding consistent_def onIdle_arm [OF sid]
    by (auto simp: less_Suc_eq)
qed

lemma consistent_handler: "consistent s \<Longrightarrow> consistent (handler h e s)"
  by (simp add: handler_cases consistent_onActivity consistent_onIdle consistent_onDeleted)

lemma consistent_commitAndSend:
  "consistent s \<Longrightarrow> t < nextTimer s \<Longrightarrow> timers s t = None \<Longrightarrow> sid \<noteq> [] \<Longrightarrow>
   consistent (commitAndSend h t sid s)"
  unfolding consistent_def commitAndSend_def perform_def
  by (auto simp: Let_def)

lemma consistent_fire:
  assumes "consistent s"
  shows "consistent (step h (Fire t) s)"
proof (cases "timers s t")
  case None
  then show ?thesis using assms by simp
next
  case (Some sid)
  have lt: "t < nextTimer s" and ne: "sid \<noteq> []"
    using assms Some unfolding consistent_def by blast+
  have other: "\<forall>t'. t' \<noteq> t \<longrightarrow> timers s t' \<noteq> Some sid"
    using assms Some unfolding consistent_def by (metis option.inject)
  let ?s1 = "s\<lparr> timers := (timers s)(t := None),
                 pendingTimers := (pendingTimers s)(sid := None) \<rparr>"
  have s1: "consistent ?s1" using assms Some other unfolding consistent_def by auto
  have s1a: "consistent (?s1\<lparr> sessionActivitySinceIdle := sessionActivitySinceIdle s - {sid} \<rparr>)"
    using consistent_less_activity [OF s1] by simp
  have s1b: "consistent (?s1\<lparr> log := log s @ [Entry t sid b (SessionTodo sid)],
                            routines := (routines s)(t \<mapsto> AwaitTodo sid) \<rparr>)" for b
    using s1 lt ne unfolding consistent_def by auto
  have s1c: "consistent (commitAndSend h t sid ?s1)"
    by (rule consistent_commitAndSend [OF s1]) (simp_all add: lt ne)
  show ?thesis using Some s1 s1a s1b s1c
    by (simp add: executeNotification_def Let_def perform_def)
qed

lemma consistent_todoDone:
  assumes "consistent s"
  shows "consistent (step h (TodoDone t r) s)"
proof (cases "\<exists>sid. routines s t = Some (AwaitTodo sid)")
  case False
  then show ?thesis using assms by (auto split: option.splits stage.splits)
next
  case True
  then obtain sid where sid: "routines s t = Some (AwaitTodo sid)" by blast
  have lt: "t < nextTimer s" "timers s t = None" "sid \<noteq> []"
    using assms sid unfolding consistent_def by auto
  have s1: "consistent (s\<lparr> routines := (routines s)(t := None) \<rparr>)"
    using assms unfolding consistent_def by auto
  have "consistent (commitAndSend h t sid (s\<lparr> routines := (routines s)(t := None) \<rparr>))"
    by (rule consistent_commitAndSend [OF s1]) (simp_all add: lt)
  then show ?thesis using sid s1 by (simp add: afterTodo_def)
qed

lemma consistent_sendDone:
  assumes "consistent s"
  shows "consistent (step h (SendDone t a b) s)"
proof (cases "\<exists>sid. routines s t = Some (AwaitSend sid)")
  case False
  then show ?thesis using assms by (auto split: option.splits stage.splits)
next
  case True
  then obtain sid where sid: "routines s t = Some (AwaitSend sid)" by blast
  have lt: "t < nextTimer s" "timers s t = None"
    using assms sid unfolding consistent_def by auto
  have s1: "consistent (s\<lparr> routines := (routines s)(t := None) \<rparr>)"
    using assms unfolding consistent_def by auto
  have s2: "consistent (s\<lparr> routines := (routines s)(t := None),
                          log := log s @ [Entry t sid m c] \<rparr>)" for m c
    using assms lt unfolding consistent_def by auto
  show ?thesis using sid s1 s2
    by (simp add: afterSend_def tryDispatch_def perform_def split: option.splits)
qed

lemma consistent_step: "consistent s \<Longrightarrow> consistent (step h l s)"
proof (cases l)
  case (Handle e)
  assume "consistent s" then show ?thesis using Handle by (simp add: consistent_handler)
next
  case (Fire t)
  assume "consistent s" then show ?thesis unfolding Fire by (rule consistent_fire)
next
  case (TodoDone t r)
  assume "consistent s" then show ?thesis unfolding TodoDone by (rule consistent_todoDone)
next
  case (SendDone t a b)
  assume "consistent s" then show ?thesis unfolding SendDone by (rule consistent_sendDone)
qed

lemma consistent_run: "consistent s \<Longrightarrow> consistent (run h ls s)"
  by (rule run_invariant) (simp_all add: consistent_step)

lemma consistent_reachable: "consistent (run h ls init)"
  by (rule consistent_run) (rule consistent_init)

subsection \<open>Evaluating concrete executions\<close>

lemmas eval_defs = linuxHook_def noConfig_def createSessionNotification_def detectPlatform_def
  merge_def spread_def truthyFlag_def init_def handler_def idleReturns_def Let_def
  sessionIdle_def sessionCreated_def sessionUpdated_def messageUpdated_def sessionDeleted_def
  info_id_def info_sessionID_def props_sessionID_def
  onIdle_def onActivity_def onDeleted_def markSessionActivity_def cancelPendingNotification_def
  clearTimeout_def setTimeout_def executeNotification_def commitAndSend_def perform_def
  afterTodo_def afterSend_def tryDispatch_def hasIncompleteTodos_def someIncomplete_def
  incomplete_def

section \<open>The todo gate\<close>

lemma someIncomplete_iff: "someIncomplete todos \<longleftrightarrow> (\<exists>t \<in> set todos. incomplete t)"
  by (cases todos) (simp_all add: someIncomplete_def list_ex_iff)

text \<open>
  Claim C6. \<open>hasIncompleteTodos\<close> answers true exactly when a task list was retrieved and
  at least one of its tasks has a status that is neither "completed" nor "cancelled". It
  answers false for an empty list, for a response that carries no list, and when the
  retrieval fails.
\<close>

theorem hasIncompleteTodos_spec:
  "(hasIncompleteTodos r \<longleftrightarrow>
      (\<exists>todos. retrieved r = Some todos \<and>
        (\<exists>t \<in> set todos. status t \<noteq> ''completed'' \<and> status t \<noteq> ''cancelled'')))
   \<and> \<not> hasIncompleteTodos (WithData []) \<and> \<not> hasIncompleteTodos (Bare [])
   \<and> \<not> hasIncompleteTodos NoList \<and> \<not> hasIncompleteTodos Rejected"
  by (cases r) (simp_all add: hasIncompleteTodos_def someIncomplete_iff incomplete_def)

theorem hasIncompleteTodos_spec_witness:
  "hasIncompleteTodos (WithData
     [\<lparr> content = ''write tests'', status = ''completed'', priority = ''high'', todo_id = ''1'' \<rparr>,
      \<lparr> content = ''ship'', status = ''in_progress'', priority = ''low'', todo_id = ''2'' \<rparr>])
   \<and> \<not> hasIncompleteTodos (WithData
     [\<lparr> content = ''write tests'', status = ''completed'', priority = ''high'', todo_id = ''1'' \<rparr>,
      \<lparr> content = ''ship'', status = ''cancelled'', priority = ''low'', todo_id = ''2'' \<rparr>])"
  using hasIncompleteTodos_spec
    [of "WithData
     [\<lparr> content = ''write tests'', status = ''completed'', priority = ''high'', todo_id = ''1'' \<rparr>,
      \<lparr> content = ''ship'', status = ''in_progress'', priority = ''low'', todo_id = ''2'' \<rparr>]"]
    hasIncompleteTodos_spec
    [of "WithData
     [\<lparr> content = ''write tests'', status = ''completed'', priority = ''high'', todo_id = ''1'' \<rparr>,
      \<lparr> content = ''ship'', status = ''cancelled'', priority = ''low'', todo_id = ''2'' \<rparr>]"]
  by simp

section \<open>Unsupported platforms\<close>

text \<open>
  Claim C9. When \<open>detectPlatform\<close> resolves to the unsupported tag, the handler returns
  the state it was given for every event: no per-session state changes, no timer is
  armed, and the log of calls to the sink and the todo gate stays as it was. No execution
  ever leaves the initial state.
\<close>

theorem unsupported_noop:
  assumes "detectPlatform os = Unsupported"
  shows "handler (createSessionNotification os config) e s = s
       \<and> run (createSessionNotification os config) ls init = init"
proof -
  have "currentPlatform (createSessionNotification os config) = Unsupported"
    using assms by (simp add: createSessionNotification_def)
  then show ?thesis by (simp add: handler_def run_init_unsupported)
qed

theorem unsupported_noop_witness:
  "detectPlatform ''freebsd'' = Unsupported
   \<and> handler (createSessionNotification ''freebsd'' noConfig) (sessionIdle ''s1'') init = init
   \<and> run (createSessionNotification ''freebsd'' noConfig)
        [Handle (sessionIdle ''s1''), Fire 1, TodoDone 1 (WithData [])] init = init"
proof -
  have u: "detectPlatform ''freebsd'' = Unsupported" by (simp add: detectPlatform_def)
  show ?thesis
    using u unsupported_noop [OF u, of noConfig "sessionIdle ''s1''" init
        "[Handle (sessionIdle ''s1''), Fire 1, TodoDone 1 (WithData [])]"]
    by blast
qed

section \<open>Timers\<close>

text \<open>
  Claim C4. In every execution a session has at most one live confirmation timer, and it
  is the one \<open>pendingTimers\<close> records. A \<open>session.idle\<close> event that arrives while a timer
  is pending for its session, or while the session is in \<open>notifiedSessions\<close>, returns the
  state unchanged, so it arms nothing.
\<close>

theorem one_pending_timer:
  "(timers (run h ls init) t1 = Some sid \<and> timers (run h ls init) t2 = Some sid \<longrightarrow> t1 = t2)
   \<and> (pendingTimers (run h ls init) sid = Some t \<longleftrightarrow> timers (run h ls init) t = Some sid)
   \<and> (isIdleFor sid e \<and> (pendingTimers s sid \<noteq> None \<or> sid \<in> notifiedSessions s)
        \<longrightarrow> handler h e s = s)"
proof -
  have c: "consistent (run h ls init)" by (rule consistent_reachable)
  have 1: "timers (run h ls init) t1 = Some sid \<and> timers (run h ls init) t2 = Some sid \<longrightarrow> t1 = t2"
    using c unfolding consistent_def by (metis option.inject)
  have 2: "pendingTimers (run h ls init) sid = Some t \<longleftrightarrow> timers (run h ls init) t = Some sid"
    using c unfolding consistent_def by blast
  have 3: "isIdleFor sid e \<and> (pendingTimers s sid \<noteq> None \<or> sid \<in> notifiedSessions s)
        \<longrightarrow> handler h e s = s"
    by (auto simp: isIdleFor_def handler_cases onIdle_def split: option.splits)
  show ?thesis using 1 2 3 by blast
qed

theorem one_pending_timer_witness:
  "timers (run linuxHook [Handle (sessionIdle ''s1'')] init) 1 = Some ''s1''
   \<and> pendingTimers (run linuxHook [Handle (sessionIdle ''s1'')] init) ''s1'' = Some 1
   \<and> isIdleFor ''s1'' (sessionIdle ''s1'')
   \<and> handler linuxHook (sessionIdle ''s1'') (run linuxHook [Handle (sessionIdle ''s1'')] init)
       = run linuxHook [Handle (sessionIdle ''s1'')] init"
proof -
  have a: "timers (run linuxHook [Handle (sessionIdle ''s1'')] init) 1 = Some ''s1''"
    by (simp add: eval_defs)
  have b: "isIdleFor ''s1'' (sessionIdle ''s1'')"
    by (simp add: isIdleFor_def sessionIdle_def props_sessionID_def)
  show ?thesis
    using a b one_pending_timer [of linuxHook "[Handle (sessionIdle ''s1'')]" 1 "''s1''" 1 1
        "sessionIdle ''s1''" "run linuxHook [Handle (sessionIdle ''s1'')] init"]
    by simp
qed

section \<open>Sessions do not interfere\<close>

lemma sessionState_cancel:
  "sid' \<noteq> sid \<Longrightarrow>
   sessionState (cancelPendingNotification sid s) sid' = sessionState s sid'"
  by (cases "pendingTimers s sid") (simp_all add: cancel_None cancel_Some sessionState_def)

lemma sessionState_onActivity:
  "v \<noteq> Some sid' \<Longrightarrow> sessionState (onActivity v s) sid' = sessionState s sid'"
proof (cases "truthy v")
  case None
  then show ?thesis by (simp add: onActivity_def)
next
  case (Some sid)
  assume "v \<noteq> Some sid'"
  then have ne: "sid' \<noteq> sid" using Some by (auto simp: truthy_Some)
  show ?thesis using Some sessionState_cancel [OF ne, of s] ne
    by (simp add: onActivity_def markSessionActivity_def Let_def sessionState_def)
qed

lemma sessionState_onDeleted:
  "v \<noteq> Some sid' \<Longrightarrow> sessionState (onDeleted v s) sid' = sessionState s sid'"
proof (cases "truthy v")
  case None
  then show ?thesis by (simp add: onDeleted_def)
next
  case (Some sid)
  assume "v \<noteq> Some sid'"
  then have ne: "sid' \<noteq> sid" using Some by (auto simp: truthy_Some)
  show ?thesis using Some sessionState_cancel [OF ne, of s] ne
    by (simp add: onDeleted_def Let_def sessionState_def)
qed

lemma sessionState_onIdle:
  "v \<noteq> Some sid' \<Longrightarrow> sessionState (onIdle v s) sid' = sessionState s sid'"
proof (cases "\<exists>sid. truthy v = Some sid \<and> sid \<notin> notifiedSessions s \<and> pendingTimers s sid = None")
  case False
  then show ?thesis by (simp add: onIdle_ignored)
next
  case True
  then obtain sid where sid: "truthy v = Some sid" "sid \<notin> notifiedSessions s"
    "pendingTimers s sid = None" by blast
  assume "v \<noteq> Some sid'"
  then have ne: "sid' \<noteq> sid" using sid(1) by (auto simp: truthy_Some)
  show ?thesis using ne by (simp add: onIdle_arm [OF sid] sessionState_def)
qed

lemma sessionState_handler:
  "eventSession e \<noteq> Some sid' \<Longrightarrow> sessionState (handler h e s) sid' = sessionState s sid'"
  by (auto simp: handler_cases eventSession_def sessionState_onActivity sessionState_onIdle
      sessionState_onDeleted split: if_splits)

lemma sessionState_commitAndSend:
  "sid' \<noteq> sid \<Longrightarrow> sessionState (commitAndSend h t sid s) sid' = sessionState s sid'"
  by (simp add: commitAndSend_def perform_def Let_def sessionState_def)

lemma sessionState_step:
  "labelSession s l \<noteq> Some sid' \<Longrightarrow> sessionState (step h l s) sid' = sessionState s sid'"
proof (cases l)
  case (Handle e)
  assume "labelSession s l \<noteq> Some sid'"
  then show ?thesis using Handle by (simp add: sessionState_handler)
next
  case (Fire t)
  assume "labelSession s l \<noteq> Some sid'"
  then show ?thesis using Fire
    by (cases "timers s t")
      (auto simp: executeNotification_def Let_def perform_def sessionState_def
        commitAndSend_def)
next
  case (TodoDone t r)
  assume "labelSession s l \<noteq> Some sid'"
  then show ?thesis using TodoDone
    by (auto simp: afterTodo_def sessionState_def commitAndSend_def perform_def Let_def
        split: option.splits stage.splits)
next
  case (SendDone t a b)
  then show ?thesis
    by (auto simp: afterSend_def tryDispatch_def sessionState_def perform_def
        split: option.splits stage.splits)
qed

lemma armed_for:
  assumes "isIdleFor sid e" "timers s t = None" "timers (handler h e s) t = Some sid'"
  shows "sid' = sid"
proof (cases "\<exists>x. truthy (props_sessionID e) = Some x \<and> x \<notin> notifiedSessions s
                  \<and> pendingTimers s x = None")
  case False
  then have "onIdle (props_sessionID e) s = s" by (rule onIdle_ignored)
  then show ?thesis using assms by (auto simp: handler_cases isIdleFor_def split: if_splits)
next
  case True
  then obtain x where x: "truthy (props_sessionID e) = Some x" "x \<notin> notifiedSessions s"
    "pendingTimers s x = None" by blast
  have "x = sid" using x(1) assms(1) by (simp add: truthy_Some isIdleFor_def)
  then show ?thesis using assms onIdle_arm [OF x]
    by (auto simp: handler_cases isIdleFor_def split: if_splits)
qed

text \<open>
  Claim C10. A step that works for session S (handling an event that carries S, the
  firing of a timer armed for S, or the resumption of a confirmation routine started for
  S) leaves \<open>notified\<close>, \<open>pendingTimers\<close> and \<open>activitySinceIdle\<close> of every other session
  as they were. The timer that a \<open>session.idle\<close> event for S arms fires for S.
\<close>

theorem other_sessions_untouched:
  assumes "labelSession s l = Some sid" and "sid' \<noteq> sid"
  shows "sessionState (step h l s) sid' = sessionState s sid'
       \<and> (\<forall>e t x. l = Handle e \<and> isIdleFor sid e \<and> timers s t = None
             \<and> timers (step h l s) t = Some x \<longrightarrow> x = sid)"
proof -
  have "labelSession s l \<noteq> Some sid'" using assms by simp
  then have "sessionState (step h l s) sid' = sessionState s sid'" by (rule sessionState_step)
  moreover have "\<forall>e t x. l = Handle e \<and> isIdleFor sid e \<and> timers s t = None
             \<and> timers (step h l s) t = Some x \<longrightarrow> x = sid"
    using armed_for by auto
  ultimately show ?thesis by blast
qed

theorem other_sessions_untouched_witness:
  "labelSession (run linuxHook [Handle (sessionIdle ''s2'')] init) (Handle (sessionCreated ''s1''))
     = Some ''s1''
   \<and> ''s2'' \<noteq> ''s1''
   \<and> sessionState (step linuxHook (Handle (sessionCreated ''s1''))
        (run linuxHook [Handle (sessionIdle ''s2'')] init)) ''s2''
      = sessionState (run linuxHook [Handle (sessionIdle ''s2'')] init) ''s2''
   \<and> sessionState (run linuxHook [Handle (sessionIdle ''s2'')] init) ''s2''
      = (False, Some 1, False)
   \<and> isIdleFor ''s2'' (sessionIdle ''s2'') \<and> timers init 1 = None
   \<and> timers (step linuxHook (Handle (sessionIdle ''s2'')) init) 1 = Some ''s2''
   \<and> labelSession (run linuxHook [Handle (sessionIdle ''s2'')] init) (Fire 1) = Some ''s2''
   \<and> sessionState (step linuxHook (Fire 1) (run linuxHook [Handle (sessionIdle ''s2'')] init)) ''s1''
      = sessionState (run linuxHook [Handle (sessionIdle ''s2'')] init) ''s1''"
proof -
  have a: "labelSession (run linuxHook [Handle (sessionIdle ''s2'')] init)
      (Handle (sessionCreated ''s1'')) = Some ''s1''"
    by (simp add: eventSession_def sessionCreated_def info_id_def)
  have b: "''s2'' \<noteq> ''s1''" "''s1'' \<noteq> ''s2''" by simp_all
  have c: "sessionState (run linuxHook [Handle (sessionIdle ''s2'')] init) ''s2''
      = (False, Some 1, False)"
    by (simp add: eval_defs sessionState_def)
  have d: "isIdleFor ''s2'' (sessionIdle ''s2'')" "timers init 1 = None"
    "timers (step linuxHook (Handle (sessionIdle ''s2'')) init) 1 = Some ''s2''"
    by (simp_all add: eval_defs isIdleFor_def)
  have e: "labelSession (run linuxHook [Handle (sessionIdle ''s2'')] init) (Fire 1) = Some ''s2''"
    by (simp add: eval_defs)
  show ?thesis
    using a b c d e other_sessions_untouched [OF a b(1), of linuxHook]
      other_sessions_untouched [OF e b(2), of linuxHook]
    by blast
qed

section \<open>Deleting a session\<close>

lemma handler_deleted:
  "isDeletedFor sid d \<Longrightarrow> currentPlatform h \<noteq> Unsupported \<Longrightarrow>
   handler h d s = onDeleted (Some sid) s"
  by (simp add: handler_cases isDeletedFor_def)

lemma handler_idle:
  "isIdleFor sid i \<Longrightarrow> currentPlatform h \<noteq> Unsupported \<Longrightarrow>
   handler h i s = onIdle (Some sid) s"
  by (simp add: handler_cases isIdleFor_def)

lemma onDeleted_state:
  "sid \<noteq> [] \<Longrightarrow> sessionState (onDeleted (Some sid) s) sid = (False, None, False)"
  by (cases "pendingTimers s sid")
    (simp_all add: onDeleted_def Let_def cancel_None cancel_Some sessionState_def)

lemma onDeleted_timer:
  "sid \<noteq> [] \<Longrightarrow> pendingTimers s sid = Some t \<Longrightarrow> timers (onDeleted (Some sid) s) t = None"
  by (simp add: onDeleted_def Let_def cancel_Some)

lemma onDeleted_nextTimer: "nextTimer (onDeleted v s) = nextTimer s"
  by (cases "truthy v"; cases "pendingTimers s (the (truthy v))")
    (simp_all add: onDeleted_def Let_def cancel_None cancel_Some)

lemma onIdle_fresh:
  "sid \<noteq> [] \<Longrightarrow> sessionState s sid = (False, None, False) \<Longrightarrow>
   sessionState (onIdle (Some sid) s) sid = (False, Some (nextTimer s), False)
   \<and> timers (onIdle (Some sid) s) (nextTimer s) = Some sid"
  by (simp add: onIdle_def setTimeout_def sessionState_def)

text \<open>
  In every execution, handling \<open>session.deleted\<close> for S leaves S with \<open>notified\<close> false,
  no pending timer and \<open>activitySinceIdle\<close> false, and the timer that was pending for S
  is no longer live. A \<open>session.idle\<close> for S handled as the very next step has the effect
  on S that it has on a session never seen before, and the timer it records is live for S.
\<close>

lemma deleted_resets:
  assumes d: "isDeletedFor sid d" and i: "isIdleFor sid i"
    and new: "sessionState new sid = (False, None, False)"
  shows "sessionState (handler h d (run h ls init)) sid = (False, None, False)
       \<and> (\<forall>t. pendingTimers (run h ls init) sid = Some t
             \<longrightarrow> timers (handler h d (run h ls init)) t = None)
       \<and> sessionFlags (handler h i (handler h d (run h ls init))) sid
           = sessionFlags (handler h i new) sid
       \<and> (\<forall>t. pendingTimers (handler h i (handler h d (run h ls init))) sid = Some t
             \<longrightarrow> timers (handler h i (handler h d (run h ls init))) t = Some sid)"
proof (cases "currentPlatform h = Unsupported")
  case True
  then have "run h ls init = init" by (rule run_init_unsupported)
  then show ?thesis using True new
    by (simp add: handler_def sessionState_def sessionFlags_def init_def)
next
  case False
  let ?s = "run h ls init"
  have c: "consistent ?s" by (rule consistent_reachable)
  show ?thesis
  proof (cases "sid = []")
    case True
    have "pendingTimers ?s [] = None" using c unfolding consistent_def
      by (metis option.exhaust)
    moreover have "[] \<notin> notifiedSessions ?s" "[] \<notin> sessionActivitySinceIdle ?s"
      using c unfolding consistent_def by blast+
    ultimately show ?thesis using True False new
      by (simp add: handler_deleted [OF d False] handler_idle [OF i False]
          onDeleted_def onIdle_def sessionState_def sessionFlags_def)
  next
    case ne: False
    let ?s1 = "onDeleted (Some sid) ?s"
    have s1: "sessionState ?s1 sid = (False, None, False)" by (rule onDeleted_state [OF ne])
    show ?thesis
      using onIdle_fresh [OF ne s1] onIdle_fresh [OF ne new] s1 onDeleted_timer [OF ne, of ?s]
      by (simp add: handler_deleted [OF d False] handler_idle [OF i False]
          onDeleted_nextTimer sessionState_def sessionFlags_def)
  qed
qed

section \<open>Dispatch\<close>

lemma senders_snoc:
  "senders (lg @ [e]) = (if isSend (call e) then insert (origin e) (senders lg) else senders lg)"
  by (auto simp: senders_def)

lemma dispatchOrder_snoc:
  "dispatchOrder seen (es @ [e]) \<longleftrightarrow>
     dispatchOrder seen es \<and>
     (case call e of
        SendNotification p ti m \<Rightarrow> marked e
      | PlaySound p path \<Rightarrow> origin e \<in> seen \<union> senders es
      | SessionTodo sid \<Rightarrow> True)"
proof (induction es arbitrary: seen)
  case Nil
  then show ?case by (simp add: senders_def split: call.splits)
next
  case (Cons x es)
  show ?case
  proof (cases "call x")
    case (SessionTodo sid)
    then have "senders (x # es) = senders es" by (auto simp: senders_def)
    then show ?thesis using SessionTodo Cons.IH [of seen] by (simp split: call.splits)
  next
    case (SendNotification p ti m)
    then have "senders (x # es) = insert (origin x) (senders es)" by (auto simp: senders_def)
    then show ?thesis using SendNotification Cons.IH [of "insert (origin x) seen"]
      by (auto split: call.splits)
  next
    case (PlaySound p path)
    then have "senders (x # es) = senders es" by (auto simp: senders_def)
    then show ?thesis using PlaySound Cons.IH [of seen] by (auto split: call.splits)
  qed
qed

lemma dispatching_commitAndSend:
  "dispatching s \<Longrightarrow> dispatching (commitAndSend h t sid s)"
  unfolding dispatching_def commitAndSend_def perform_def
  by (simp add: Let_def dispatchOrder_snoc senders_snoc)

lemma dispatching_step:
  assumes "dispatching s"
  shows "dispatching (step h l s)"
proof (cases l)
  case (Handle e)
  then show ?thesis using assms by (simp add: dispatching_def log_handler routines_handler)
next
  case (Fire t)
  show ?thesis
  proof (cases "timers s t")
    case None
    then show ?thesis using assms Fire by simp
  next
    case (Some sid)
    let ?s1 = "s\<lparr> timers := (timers s)(t := None),
                   pendingTimers := (pendingTimers s)(sid := None) \<rparr>"
    have s1: "dispatching ?s1" using assms by (simp add: dispatching_def)
    have s1a: "dispatching (?s1\<lparr> sessionActivitySinceIdle := A \<rparr>)" for A
      using assms by (simp add: dispatching_def)
    have s1b: "dispatching (?s1\<lparr> log := log s @ [Entry t sid b (SessionTodo sid)],
                              routines := (routines s)(t \<mapsto> AwaitTodo sid) \<rparr>)" for b
      using assms by (simp add: dispatching_def dispatchOrder_snoc senders_snoc)
    have s1c: "dispatching (commitAndSend h t sid ?s1)"
      by (rule dispatching_commitAndSend [OF s1])
    show ?thesis using Fire Some s1 s1a s1b s1c
      by (simp add: executeNotification_def Let_def perform_def)
  qed
next
  case (TodoDone t r)
  show ?thesis
  proof (cases "\<exists>sid. routines s t = Some (AwaitTodo sid)")
    case False
    then show ?thesis using assms TodoDone by (auto split: option.splits stage.splits)
  next
    case True
    then obtain sid where sid: "routines s t = Some (AwaitTodo sid)" by blast
    have s1: "dispatching (s\<lparr> routines := (routines s)(t := None) \<rparr>)"
      using assms by (simp add: dispatching_def)
    show ?thesis using TodoDone sid s1 dispatching_commitAndSend [OF s1]
      by (simp add: afterTodo_def)
  qed
next
  case (SendDone t a b)
  show ?thesis
  proof (cases "\<exists>sid. routines s t = Some (AwaitSend sid)")
    case False
    then show ?thesis using assms SendDone by (auto split: option.splits stage.splits)
  next
    case True
    then obtain sid where sid: "routines s t = Some (AwaitSend sid)" by blast
    then have t: "t \<in> senders (log s)" using assms by (simp add: dispatching_def)
    have s1: "dispatching (s\<lparr> routines := (routines s)(t := None) \<rparr>)"
      using assms by (simp add: dispatching_def)
    have s2: "dispatching (s\<lparr> routines := (routines s)(t := None),
                              log := log s @ [Entry t sid m (PlaySound p path)] \<rparr>)" for m p path
      using assms t by (simp add: dispatching_def dispatchOrder_snoc senders_snoc)
    show ?thesis using SendDone sid s1 s2
      by (simp add: afterSend_def tryDispatch_def perform_def split: option.splits)
  qed
qed

lemma dispatching_reachable: "dispatching (run h ls init)"
  by (rule run_invariant) (simp_all add: dispatching_step, simp add: dispatching_def init_def)

lemma notified_sendDone:
  "notifiedSessions (step h (SendDone t a b) s) = notifiedSessions s"
  by (auto simp: afterSend_def tryDispatch_def perform_def split: option.splits stage.splits)

lemma commitAndSend_eq:
  "commitAndSend h t sid s =
     s\<lparr> notifiedSessions := insert sid (notifiedSessions s),
        log := log s @ [Entry t sid True
                 (SendNotification (currentPlatform h) (title (merged h)) (message (merged h)))],
        routines := (routines s)(t \<mapsto> AwaitSend sid) \<rparr>"
  by (simp add: commitAndSend_def perform_def Let_def)

lemma decision_after_gate:
  assumes "routines s t = Some (AwaitTodo sid)" "\<not> hasIncompleteTodos r"
  shows "log (step h (TodoDone t r) s)
           = log s @ [Entry t sid True
               (SendNotification (currentPlatform h) (title (merged h)) (message (merged h)))]
       \<and> sid \<in> notifiedSessions (step h (TodoDone t r) s)
       \<and> routines (step h (TodoDone t r) s) t = Some (AwaitSend sid)"
  using assms by (simp add: afterTodo_def commitAndSend_eq)

lemma decision_ungated:
  assumes "timers s t = Some sid" "\<not> truthyFlag (skipIfIncompleteTodos (merged h))"
    "sid \<notin> sessionActivitySinceIdle s" "sid \<notin> notifiedSessions s"
  shows "log (step h (Fire t) s)
           = log s @ [Entry t sid True
               (SendNotification (currentPlatform h) (title (merged h)) (message (merged h)))]
       \<and> sid \<in> notifiedSessions (step h (Fire t) s)
       \<and> routines (step h (Fire t) s) t = Some (AwaitSend sid)"
  using assms by (simp add: executeNotification_def Let_def commitAndSend_eq)

lemma sendDone_completes:
  assumes "routines s t = Some (AwaitSend sid)"
  shows "notifiedSessions (step h (SendDone t a b) s) = notifiedSessions s
       \<and> routines (step h (SendDone t a b) s) t = None"
  using assms by (simp add: afterSend_def tryDispatch_def perform_def split: option.splits)

text \<open>
  Claim C7. The dispatch decision is reached when the todo gate answers that nothing is
  incomplete or, with \<open>skipIfIncompleteTodos\<close> off, when the timer fires for a session
  without activity that is not yet notified. In that very step the session is added to
  \<open>notifiedSessions\<close> and \<open>sendNotification\<close> is called with the configured title and
  message, the call being made with the session already in \<open>notifiedSessions\<close>; in every
  execution each \<open>sendNotification\<close> call is made so, and each \<open>playSound\<close> call follows
  the \<open>sendNotification\<close> call of the same run of the routine. The \<open>try\<close> block does
  throw when \<open>sendNotification\<close> rejects, and when \<open>playSound\<close> is called and rejects;
  whatever it does, the routine returns normally with the state the block left, the
  routine is over, and \<open>notifiedSessions\<close> is what it was when the outcome arrived.
\<close>

theorem commit_before_dispatch:
  "dispatchOrder {} (log (run h ls init))
   \<and> (routines s t = Some (AwaitTodo sid) \<and> \<not> hasIncompleteTodos r \<longrightarrow>
        log (step h (TodoDone t r) s)
          = log s @ [Entry t sid True
              (SendNotification (currentPlatform h) (title (merged h)) (message (merged h)))]
        \<and> sid \<in> notifiedSessions (step h (TodoDone t r) s)
        \<and> routines (step h (TodoDone t r) s) t = Some (AwaitSend sid))
   \<and> (timers s t = Some sid \<and> \<not> truthyFlag (skipIfIncompleteTodos (merged h))
        \<and> sid \<notin> sessionActivitySinceIdle s \<and> sid \<notin> notifiedSessions s \<longrightarrow>
        log (step h (Fire t) s)
          = log s @ [Entry t sid True
              (SendNotification (currentPlatform h) (title (merged h)) (message (merged h)))]
        \<and> sid \<in> notifiedSessions (step h (Fire t) s)
        \<and> routines (step h (Fire t) s) t = Some (AwaitSend sid))
   \<and> notifiedSessions (step h (SendDone t sendRejected soundRejected) s) = notifiedSessions s
   \<and> (routines s t = Some (AwaitSend sid) \<longrightarrow>
        routines (step h (SendDone t sendRejected soundRejected) s) t = None)
   \<and> fst (tryDispatch h t sid True soundRejected s)
   \<and> (truthyFlag (playSound (merged h)) \<and> truthy (soundPath (merged h)) \<noteq> None
        \<and> title (merged h) \<noteq> None \<and> message (merged h) \<noteq> None \<longrightarrow>
        fst (tryDispatch h t sid False True s))
   \<and> afterSend h t sid sendRejected soundRejected s
        = Inr (snd (tryDispatch h t sid sendRejected soundRejected s))
   \<and> notifiedSessions (snd (tryDispatch h t sid sendRejected soundRejected s))
        = notifiedSessions s"
proof -
  have 1: "dispatchOrder {} (log (run h ls init))"
    using dispatching_reachable [of h ls] by (simp add: dispatching_def)
  have 5: "fst (tryDispatch h t sid True soundRejected s)"
    by (simp add: tryDispatch_def)
  have 6: "truthyFlag (playSound (merged h)) \<and> truthy (soundPath (merged h)) \<noteq> None
        \<and> title (merged h) \<noteq> None \<and> message (merged h) \<noteq> None \<longrightarrow>
        fst (tryDispatch h t sid False True s)"
    by (auto simp: tryDispatch_def)
  have 7: "afterSend h t sid sendRejected soundRejected s
        = Inr (snd (tryDispatch h t sid sendRejected soundRejected s))"
    by (simp add: afterSend_def split: prod.splits)
  have 8: "notifiedSessions (snd (tryDispatch h t sid sendRejected soundRejected s))
        = notifiedSessions s"
    by (simp add: tryDispatch_def perform_def split: option.splits)
  show ?thesis
    using 1 5 6 7 8 decision_after_gate [of s t sid r h] decision_ungated [of s t sid h]
      sendDone_completes [of s t sid h sendRejected soundRejected]
      notified_sendDone [of h t sendRejected soundRejected s]
    by blast
qed

theorem commit_before_dispatch_witness:
  "routines (run linuxHook [Handle (sessionIdle ''s1''), Fire 1] init) 1 = Some (AwaitTodo ''s1'')
   \<and> \<not> hasIncompleteTodos (WithData [])
   \<and> ''s1'' \<notin> notifiedSessions (run linuxHook [Handle (sessionIdle ''s1''), Fire 1] init)
   \<and> log (step linuxHook (TodoDone 1 (WithData []))
          (run linuxHook [Handle (sessionIdle ''s1''), Fire 1] init))
      = log (run linuxHook [Handle (sessionIdle ''s1''), Fire 1] init)
        @ [Entry 1 ''s1'' True
             (SendNotification Linux (Some ''OpenCode'') (Some ''Agent is ready for input''))]
   \<and> ''s1'' \<in> notifiedSessions (step linuxHook (TodoDone 1 (WithData []))
          (run linuxHook [Handle (sessionIdle ''s1''), Fire 1] init))
   \<and> timers (run soundHook [Handle (sessionIdle ''s1'')] init) 1 = Some ''s1''
   \<and> \<not> truthyFlag (skipIfIncompleteTodos (merged soundHook))
   \<and> ''s1'' \<notin> sessionActivitySinceIdle (run soundHook [Handle (sessionIdle ''s1'')] init)
   \<and> ''s1'' \<notin> notifiedSessions (run soundHook [Handle (sessionIdle ''s1'')] init)
   \<and> ''s1'' \<in> notifiedSessions (step soundHook (Fire 1)
          (run soundHook [Handle (sessionIdle ''s1'')] init))
   \<and> routines (run soundHook [Handle (sessionIdle ''s1''), Fire 1] init) 1
        = Some (AwaitSend ''s1'')
   \<and> notifiedSessions (step soundHook (SendDone 1 True False)
          (run soundHook [Handle (sessionIdle ''s1''), Fire 1] init))
      = notifiedSessions (run soundHook [Handle (sessionIdle ''s1''), Fire 1] init)
   \<and> ''s1'' \<in> notifiedSessions (run soundHook [Handle (sessionIdle ''s1''), Fire 1] init)
   \<and> truthyFlag (playSound (merged soundHook)) \<and> truthy (soundPath (merged soundHook)) \<noteq> None
   \<and> title (merged soundHook) \<noteq> None \<and> message (merged soundHook) \<noteq> None
   \<and> fst (tryDispatch soundHook 1 ''s1'' False True
          (run soundHook [Handle (sessionIdle ''s1''), Fire 1] init))
   \<and> afterSend soundHook 1 ''s1'' False True
          (run soundHook [Handle (sessionIdle ''s1''), Fire 1] init)
      = Inr (snd (tryDispatch soundHook 1 ''s1'' False True
          (run soundHook [Handle (sessionIdle ''s1''), Fire 1] init)))"
proof -
  let ?g = "run linuxHook [Handle (sessionIdle ''s1''), Fire 1] init"
  let ?u = "run soundHook [Handle (sessionIdle ''s1'')] init"
  let ?v = "run soundHook [Handle (sessionIdle ''s1''), Fire 1] init"
  have a: "routines ?g 1 = Some (AwaitTodo ''s1'')" "\<not> hasIncompleteTodos (WithData [])"
    "''s1'' \<notin> notifiedSessions ?g"
    by (simp_all add: eval_defs)
  have b: "timers ?u 1 = Some ''s1''" "\<not> truthyFlag (skipIfIncompleteTodos (merged soundHook))"
    "''s1'' \<notin> sessionActivitySinceIdle ?u" "''s1'' \<notin> notifiedSessions ?u"
    by (simp_all add: eval_defs soundHook_def)
  have c: "routines ?v 1 = Some (AwaitSend ''s1'')" "''s1'' \<in> notifiedSessions ?v"
    by (simp_all add: eval_defs soundHook_def)
  have d: "truthyFlag (playSound (merged soundHook))" "truthy (soundPath (merged soundHook)) \<noteq> None"
    "title (merged soundHook) \<noteq> None" "message (merged soundHook) \<noteq> None"
    by (simp_all add: eval_defs soundHook_def)
  have m: "currentPlatform linuxHook = Linux" "title (merged linuxHook) = Some ''OpenCode''"
    "message (merged linuxHook) = Some ''Agent is ready for input''"
    by (simp_all add: eval_defs)
  note g = commit_before_dispatch [of linuxHook "[]" ?g 1 "''s1''" "WithData []" False False]
  note u = commit_before_dispatch [of soundHook "[]" ?u 1 "''s1''" "WithData []" False False]
  note v = commit_before_dispatch [of soundHook "[]" ?v 1 "''s1''" "WithData []" True False]
  note w = commit_before_dispatch [of soundHook "[]" ?v 1 "''s1''" "WithData []" False True]
  have g': "log (step linuxHook (TodoDone 1 (WithData [])) ?g)
      = log ?g @ [Entry 1 ''s1'' True
             (SendNotification Linux (Some ''OpenCode'') (Some ''Agent is ready for input''))]"
    "''s1'' \<in> notifiedSessions (step linuxHook (TodoDone 1 (WithData [])) ?g)"
    using g a m by simp_all
  have u': "''s1'' \<in> notifiedSessions (step soundHook (Fire 1) ?u)"
    using u b by blast
  have v': "notifiedSessions (step soundHook (SendDone 1 True False) ?v) = notifiedSessions ?v"
    using v c by blast
  have w': "fst (tryDispatch soundHook 1 ''s1'' False True ?v)"
    "afterSend soundHook 1 ''s1'' False True ?v
      = Inr (snd (tryDispatch soundHook 1 ''s1'' False True ?v))"
    using w d by blast+
  show ?thesis using a b c d g' u' v' w' by blast
qed

section \<open>The activity flag\<close>










section \<open>Activity before the timer fires\<close>

lemma unstarted_step:
  assumes "unstarted sid t s" and "l \<noteq> Fire t"
  shows "unstarted sid t (step h l s)"
proof (cases l)
  case (Handle e)
  then show ?thesis using assms timers_handler [of s h e t]
    by (auto simp: unstarted_def log_handler routines_handler)
next
  case (Fire t')
  then have ne: "t' \<noteq> t" using assms by simp
  show ?thesis using assms ne Fire
    by (cases "timers s t'")
      (auto simp: unstarted_def executeNotification_def Let_def perform_def commitAndSend_def
        entriesBy_snoc)
next
  case (TodoDone t' r)
  show ?thesis
  proof (cases "\<exists>x. routines s t' = Some (AwaitTodo x)")
    case False
    then show ?thesis using assms TodoDone by (auto split: option.splits stage.splits)
  next
    case True
    then obtain x where x: "routines s t' = Some (AwaitTodo x)" by blast
    then have "t' \<noteq> t" using assms by (auto simp: unstarted_def)
    then show ?thesis using assms TodoDone x
      by (auto simp: unstarted_def afterTodo_def commitAndSend_def perform_def Let_def
          entriesBy_snoc)
  qed
next
  case (SendDone t' a b)
  show ?thesis
  proof (cases "\<exists>x. routines s t' = Some (AwaitSend x)")
    case False
    then show ?thesis using assms SendDone by (auto split: option.splits stage.splits)
  next
    case True
    then obtain x where x: "routines s t' = Some (AwaitSend x)" by blast
    then have "t' \<noteq> t" using assms by (auto simp: unstarted_def)
    then show ?thesis using assms SendDone x
      by (auto simp: unstarted_def afterSend_def tryDispatch_def perform_def entriesBy_snoc
          split: option.splits)
  qed
qed

lemma unstarted_run:
  "unstarted sid t s \<Longrightarrow> Fire t \<notin> set ls \<Longrightarrow> unstarted sid t (run h ls s)"
proof (induction ls arbitrary: s)
  case Nil
  then show ?case by simp
next
  case (Cons l ls)
  then have "unstarted sid t (step h l s)" by (auto intro: unstarted_step)
  then show ?case using Cons by simp
qed

lemma dead_unstarted: "dead t s \<longleftrightarrow> unstarted sid t s \<and> timers s t = None"
  by (auto simp: dead_def unstarted_def)

lemma dead_step:
  assumes "dead t s"
  shows "dead t (step h l s)"
proof (cases "l = Fire t")
  case True
  then show ?thesis using assms by (simp add: dead_def)
next
  case False
  have u: "unstarted [] t (step h l s)"
    using assms False by (simp add: dead_unstarted [of t s "[]"] unstarted_step)
  have "timers (step h l s) t = None"
  proof (cases l)
    case (Handle e)
    then show ?thesis using assms timers_handler [of s h e t] by (auto simp: dead_def)
  next
    case (Fire t')
    then show ?thesis using assms False
      by (cases "timers s t'")
        (auto simp: dead_def executeNotification_def Let_def perform_def commitAndSend_def)
  next
    case (TodoDone t' r)
    then show ?thesis using assms
      by (auto simp: dead_def afterTodo_def commitAndSend_def perform_def Let_def
          split: option.splits stage.splits)
  next
    case (SendDone t' a b)
    then show ?thesis using assms
      by (auto simp: dead_def afterSend_def tryDispatch_def perform_def
          split: option.splits stage.splits)
  qed
  then show ?thesis using u by (simp add: dead_unstarted [of t _ "[]"])
qed

lemma dead_run: "dead t s \<Longrightarrow> dead t (run h ls s)"
  by (rule run_invariant) (simp_all add: dead_step)

lemma consistent_unstarted:
  "consistent s \<Longrightarrow> timers s t = Some sid \<Longrightarrow> unstarted sid t s"
proof -
  assume c: "consistent s" and t: "timers s t = Some sid"
  have "t < nextTimer s" using c t unfolding consistent_def by blast
  moreover have "routines s t = None" using c t unfolding consistent_def by fastforce
  moreover have "\<forall>e \<in> set (log s). origin e \<noteq> t" using c t unfolding consistent_def by fastforce
  then have "entriesBy t (log s) = []" by (auto simp: entriesBy_def filter_empty_conv)
  ultimately show ?thesis using t by (simp add: unstarted_def)
qed

text \<open>
  Let a \<open>session.idle\<close> event for S be handled, with timer \<open>t\<close> pending for S afterwards,
  and let an activity event for S arrive before \<open>t\<close> has fired. Then \<open>t\<close> is cancelled: in
  every continuation it is never live again, no confirmation routine runs for it, and it
  makes no call at all. This is about the timer \<open>t\<close> alone, not about what routines
  started by earlier timers of the session do.
\<close>

lemma activity_cancels:
  assumes idle: "isIdleFor sid e"
    and pending: "pendingTimers (handler h e (run h ls0 init)) sid = Some t"
    and unfired: "Fire t \<notin> set ls1"
    and activity: "isActivityFor sid a"
  shows "timers (run h ls2 (handler h a (run h ls1 (handler h e (run h ls0 init))))) t = None
       \<and> routines (run h ls2 (handler h a (run h ls1 (handler h e (run h ls0 init))))) t = None
       \<and> entriesBy t (log (run h ls2 (handler h a (run h ls1 (handler h e (run h ls0 init))))))
           = []"
proof -
  let ?s1 = "handler h e (run h ls0 init)"
  let ?s2 = "run h ls1 ?s1"
  let ?s3 = "handler h a ?s2"
  have s1_eq: "?s1 = run h (ls0 @ [Handle e]) init" by (simp add: run_append)
  have c1: "consistent ?s1" unfolding s1_eq by (rule consistent_reachable)
  have c2: "consistent ?s2" by (rule consistent_run [OF c1])
  have supported: "currentPlatform h \<noteq> Unsupported"
  proof
    assume u: "currentPlatform h = Unsupported"
    then have "?s1 = init" by (simp add: handler_def run_init_unsupported)
    then show False using pending by (simp add: init_def)
  qed
  have live: "timers ?s1 t = Some sid" using c1 pending unfolding consistent_def by blast
  have ne: "sid \<noteq> []" using c1 live unfolding consistent_def by blast
  have u2: "unstarted sid t ?s2"
    by (rule unstarted_run [OF consistent_unstarted [OF c1 live] unfired])
  have s3: "?s3 = markSessionActivity sid ?s2"
    using activity supported ne
    by (auto simp: handler_cases isActivityFor_def onActivity_def)
  have u3: "unstarted sid t ?s3" using unstarted_step [OF u2, of "Handle a" h] by simp
  have "timers ?s3 t = None"
  proof (cases "timers ?s2 t")
    case None
    then show ?thesis using timers_handler [of ?s2 h a t] u2 by (auto simp: unstarted_def)
  next
    case (Some x)
    then have "x = sid" using u2 by (simp add: unstarted_def)
    then have "pendingTimers ?s2 sid = Some t" using c2 Some unfolding consistent_def by blast
    then show ?thesis unfolding s3
      by (simp add: markSessionActivity_def Let_def cancel_Some)
  qed
  then have "dead t ?s3" using u3 by (simp add: dead_unstarted [of t _ sid])
  then have "dead t (run h ls2 ?s3)" by (rule dead_run)
  then show ?thesis by (simp add: dead_def)
qed

section \<open>Each timer notifies at most once\<close>

lemma once_commitAndSend:
  assumes "once s" "notificationsBy t (log s) = []"
  shows "once (commitAndSend h t sid s)"
  using assms unfolding once_def commitAndSend_def perform_def
  by (auto simp: Let_def notificationsBy_snoc)

lemma once_step:
  assumes o: "once s" and c: "consistent s"
  shows "once (step h l s)"
proof (cases l)
  case (Handle e)
  then show ?thesis using o by (simp add: once_def log_handler routines_handler)
next
  case (Fire t)
  show ?thesis
  proof (cases "timers s t")
    case None
    then show ?thesis using o Fire by simp
  next
    case (Some sid)
    have u: "unstarted sid t s" by (rule consistent_unstarted [OF c Some])
    then have n: "notificationsBy t (log s) = []"
      by (simp add: unstarted_def notificationsBy_entriesBy)
    let ?s1 = "s\<lparr> timers := (timers s)(t := None),
                   pendingTimers := (pendingTimers s)(sid := None) \<rparr>"
    have s1: "once ?s1" using o by (simp add: once_def)
    have s1a: "once (?s1\<lparr> sessionActivitySinceIdle := A \<rparr>)" for A
      using o by (simp add: once_def)
    have s1b: "once (?s1\<lparr> log := log s @ [Entry t sid b (SessionTodo sid)],
                       routines := (routines s)(t \<mapsto> AwaitTodo sid) \<rparr>)" for b
      using o n by (simp add: once_def notificationsBy_snoc)
    have s1c: "once (commitAndSend h t sid ?s1)"
      by (rule once_commitAndSend [OF s1]) (simp add: n)
    show ?thesis using Fire Some s1 s1a s1b s1c
      by (simp add: executeNotification_def Let_def perform_def)
  qed
next
  case (TodoDone t r)
  show ?thesis
  proof (cases "\<exists>sid. routines s t = Some (AwaitTodo sid)")
    case False
    then show ?thesis using o TodoDone by (auto split: option.splits stage.splits)
  next
    case True
    then obtain sid where sid: "routines s t = Some (AwaitTodo sid)" by blast
    then have n: "notificationsBy t (log s) = []" using o by (simp add: once_def)
    have s1: "once (s\<lparr> routines := (routines s)(t := None) \<rparr>)"
      using o by (simp add: once_def)
    have "once (commitAndSend h t sid (s\<lparr> routines := (routines s)(t := None) \<rparr>))"
      by (rule once_commitAndSend [OF s1]) (simp add: n)
    then show ?thesis using TodoDone sid s1 by (simp add: afterTodo_def)
  qed
next
  case (SendDone t a b)
  show ?thesis
  proof (cases "\<exists>sid. routines s t = Some (AwaitSend sid)")
    case False
    then show ?thesis using o SendDone by (auto split: option.splits stage.splits)
  next
    case True
    then obtain sid where sid: "routines s t = Some (AwaitSend sid)" by blast
    have s1: "once (s\<lparr> routines := (routines s)(t := None) \<rparr>)"
      using o by (simp add: once_def)
    have s2: "once (s\<lparr> routines := (routines s)(t := None),
                       log := log s @ [Entry t sid m (PlaySound p path)] \<rparr>)" for m p path
      using o by (simp add: once_def notificationsBy_snoc)
    show ?thesis using SendDone sid s1 s2
      by (simp add: afterSend_def tryDispatch_def perform_def split: option.splits)
  qed
qed

lemma once_reachable: "once (run h ls init)"
proof -
  have "consistent (run h ls init) \<and> once (run h ls init)"
  proof (rule run_invariant)
    show "consistent init \<and> once init"
      by (simp add: consistent_init) (simp add: once_def init_def notificationsBy_def entriesBy_def)
  next
    fix s l
    assume "consistent s \<and> once s"
    then show "consistent (step h l s) \<and> once (step h l s)"
      by (simp add: consistent_step once_step)
  qed
  then show ?thesis by simp
qed

lemma armed_by_idle:
  assumes "timers s t = None" "timers (step h l s) t = Some sid"
  shows "beginsEpisode sid s l"
proof (cases l)
  case (Handle e)
  have c: "timers s' t = None \<Longrightarrow> timers (cancelPendingNotification x s') t = None" for x s'
    by (cases "pendingTimers s' x") (simp_all add: cancel_None cancel_Some)
  have a: "timers s t = None \<Longrightarrow> timers (onActivity v s) t = None" for v
    using c by (cases "truthy v") (simp_all add: onActivity_def markSessionActivity_def Let_def)
  have d: "timers s t = None \<Longrightarrow> timers (onDeleted v s) t = None" for v
    using c by (cases "truthy v") (simp_all add: onDeleted_def Let_def)
  have i: "timers (onIdle v s) t = Some sid \<Longrightarrow>
      v = Some sid \<and> pendingTimers s sid = None \<and> sid \<notin> notifiedSessions s" for v
    using assms(1) by (cases "truthy v") (auto simp: onIdle_def setTimeout_def truthy_Some split: if_splits)
  note handler_kinds [of h e s]
  then show ?thesis
  proof cases
    case idle
    then show ?thesis using assms Handle i [of "props_sessionID e"] by (simp add: isIdleFor_def)
  next
    case (act v)
    then show ?thesis using assms Handle a [of v] by simp
  next
    case (del v)
    then show ?thesis using assms Handle d [of v] by simp
  next
    case same
    then show ?thesis using assms Handle by simp
  qed
next
  case (Fire t')
  then show ?thesis using assms
    by (cases "timers s t'")
      (auto simp: executeNotification_def Let_def perform_def commitAndSend_def split: if_splits)
next
  case (TodoDone t' r)
  then show ?thesis using assms
    by (auto simp: afterTodo_def commitAndSend_def perform_def Let_def
        split: option.splits stage.splits if_splits)
next
  case (SendDone t' a b)
  then show ?thesis using assms
    by (auto simp: afterSend_def tryDispatch_def perform_def
        split: option.splits stage.splits if_splits)
qed

lemma episode_arms:
  assumes "beginsEpisode sid s l" "currentPlatform h \<noteq> Unsupported" "sid \<noteq> []"
  shows "timers (step h l s) (nextTimer s) = Some sid
       \<and> pendingTimers (step h l s) sid = Some (nextTimer s)"
proof (cases l)
  case (Handle e)
  then show ?thesis using assms
    by (simp add: handler_cases isIdleFor_def onIdle_def setTimeout_def)
qed (use assms in simp_all)

text \<open>
  A timer is armed exactly by a \<open>session.idle\<close> event that finds no timer pending for
  the session and the session not in \<open>notifiedSessions\<close>, and in every execution the
  confirmation routine of a timer calls \<open>sendNotification\<close> at most once.
\<close>

lemma one_notification_per_timer:
  "length (notificationsBy t (log (run h ls init))) \<le> 1
   \<and> (timers s t = None \<and> timers (step h l s) t = Some sid \<longrightarrow> beginsEpisode sid s l)
   \<and> (beginsEpisode sid s l \<and> currentPlatform h \<noteq> Unsupported \<and> sid \<noteq> []
        \<longrightarrow> timers (step h l s) (nextTimer s) = Some sid)"
proof -
  have "length (notificationsBy t (log (run h ls init))) \<le> 1"
    using once_reachable [of h ls] by (simp add: once_def)
  then show ?thesis using armed_by_idle episode_arms by blast
qed

section \<open>An idle session is notified\<close>

lemma ungated_handler:
  assumes "ungated s" and c: "consistent s"
  shows "ungated (handler h e s)"
proof -
  have r: "\<forall>t sid. routines (handler h e s) t \<noteq> Some (AwaitTodo sid)"
    using assms(1) by (simp add: ungated_def routines_handler)
  have "timers (handler h e s) t = Some sid \<Longrightarrow> sid \<notin> notifiedSessions (handler h e s)" for t sid
  proof (cases "timers s t = Some sid")
    case True
    then show ?thesis using assms(1) notified_handler [of h e s] by (auto simp: ungated_def)
  next
    case False
    assume live: "timers (handler h e s) t = Some sid"
    show ?thesis
    proof (cases "timers s t")
      case None
      then have "beginsEpisode sid s (Handle e)" using live armed_by_idle [of s t h "Handle e" sid]
        by simp
      then show ?thesis using notified_handler [of h e s] by auto
    next
      case (Some x)
      then have "t < nextTimer s" using c unfolding consistent_def by blast
      then have "timers s t = Some sid"
        using live timers_handler [of s h e t] by auto
      then show ?thesis using False by simp
    qed
  qed
  then show ?thesis using r by (simp add: ungated_def)
qed

lemma ungated_step:
  assumes u: "ungated s" and c: "consistent s" and g: "\<not> truthyFlag (skipIfIncompleteTodos (merged h))"
  shows "ungated (step h l s)"
proof (cases l)
  case (Handle e)
  then show ?thesis using u c by (simp add: ungated_handler)
next
  case (Fire t)
  show ?thesis
  proof (cases "timers s t")
    case None
    then show ?thesis using u Fire by simp
  next
    case (Some sid)
    have other: "\<forall>t'. t' \<noteq> t \<longrightarrow> timers s t' \<noteq> Some sid"
      using c Some unfolding consistent_def by (metis option.inject)
    show ?thesis using u g Fire Some other
      by (auto simp: ungated_def executeNotification_def Let_def commitAndSend_def perform_def)
  qed
next
  case (TodoDone t r)
  then show ?thesis using u by (auto simp: ungated_def split: option.splits stage.splits)
next
  case (SendDone t a b)
  then show ?thesis using u
    by (auto simp: ungated_def afterSend_def tryDispatch_def perform_def
        split: option.splits stage.splits)
qed

lemma ungated_reachable:
  assumes "\<not> truthyFlag (skipIfIncompleteTodos (merged h))"
  shows "ungated (run h ls init)"
proof -
  have "consistent (run h ls init) \<and> ungated (run h ls init)"
  proof (rule run_invariant)
    show "consistent init \<and> ungated init"
      by (simp add: consistent_init) (simp add: ungated_def init_def)
  next
    fix s l
    assume "consistent s \<and> ungated s"
    then show "consistent (step h l s) \<and> ungated (step h l s)"
      using assms by (simp add: consistent_step ungated_step)
  qed
  then show ?thesis by simp
qed

lemma sent_step:
  assumes "sent t es s"
  shows "sent t es (step h l s)"
proof (cases l)
  case (Handle e)
  then show ?thesis using assms timers_handler [of s h e t]
    by (auto simp: sent_def log_handler routines_handler)
next
  case (Fire t')
  show ?thesis
  proof (cases "timers s t'")
    case None
    then show ?thesis using assms Fire by simp
  next
    case (Some sid)
    then have "t' \<noteq> t" using assms by (auto simp: sent_def)
    then show ?thesis using assms Fire Some
      by (auto simp: sent_def executeNotification_def Let_def perform_def commitAndSend_def
          notificationsBy_snoc)
  qed
next
  case (TodoDone t' r)
  show ?thesis
  proof (cases "\<exists>x. routines s t' = Some (AwaitTodo x)")
    case False
    then show ?thesis using assms TodoDone by (auto split: option.splits stage.splits)
  next
    case True
    then obtain x where x: "routines s t' = Some (AwaitTodo x)" by blast
    then have "t' \<noteq> t" using assms by (auto simp: sent_def)
    then show ?thesis using assms TodoDone x
      by (auto simp: sent_def afterTodo_def commitAndSend_def perform_def Let_def
          notificationsBy_snoc)
  qed
next
  case (SendDone t' a b)
  show ?thesis
  proof (cases "\<exists>x. routines s t' = Some (AwaitSend x)")
    case False
    then show ?thesis using assms SendDone by (auto split: option.splits stage.splits)
  next
    case True
    then obtain x where x: "routines s t' = Some (AwaitSend x)" by blast
    then show ?thesis using assms SendDone
      by (auto simp: sent_def afterSend_def tryDispatch_def perform_def notificationsBy_snoc
          split: option.splits)
  qed
qed

lemma sent_run: "sent t es s \<Longrightarrow> sent t es (run h ls s)"
  by (rule run_invariant) (simp_all add: sent_step)

lemma sent_commitAndSend:
  assumes "t < nextTimer s" "timers s t = None" "notificationsBy t (log s) = []"
  shows "sent t [Entry t sid True
            (SendNotification (currentPlatform h) (title (merged h)) (message (merged h)))]
          (commitAndSend h t sid s)"
  using assms by (simp add: sent_def commitAndSend_def perform_def Let_def notificationsBy_snoc)

text \<open>
  Let a \<open>session.idle\<close> event for S be handled, with timer \<open>t\<close> pending for S afterwards;
  let no activity event for S arrive before \<open>t\<close>, still live, fires; and let either
  \<open>skipIfIncompleteTodos\<close> be off, or the confirmation routine of \<open>t\<close> be waiting for the
  todo gate when the gate answers that no work is incomplete. Then the routine of \<open>t\<close>
  makes exactly one \<open>sendNotification\<close> call, for S, with the configured title and
  message, and whatever happens afterwards it makes no other. This counts the calls of
  one routine, not the calls made for the session.
\<close>

lemma idle_confirmed_notifies:
  assumes idle: "isIdleFor sid e"
    and pending: "pendingTimers (handler h e (run h ls0 init)) sid = Some t"
    and quiet: "\<forall>l \<in> set ls1. \<not> isActivity sid l"
    and fires: "timers (run h ls1 (handler h e (run h ls0 init))) t = Some sid"
    and gate: "truthyFlag (skipIfIncompleteTodos (merged h)) \<longrightarrow>
                 routines (run h ls2 (step h (Fire t)
                   (run h ls1 (handler h e (run h ls0 init))))) t = Some (AwaitTodo sid)
                 \<and> \<not> hasIncompleteTodos r"
  shows "notificationsBy t (log (run h ls3
           (if truthyFlag (skipIfIncompleteTodos (merged h))
            then step h (TodoDone t r) (run h ls2 (step h (Fire t)
                   (run h ls1 (handler h e (run h ls0 init)))))
            else step h (Fire t) (run h ls1 (handler h e (run h ls0 init))))))
         = [Entry t sid True
              (SendNotification (currentPlatform h) (title (merged h)) (message (merged h)))]"
proof -
  let ?s2 = "run h ls1 (handler h e (run h ls0 init))"
  let ?n = "Entry t sid True
              (SendNotification (currentPlatform h) (title (merged h)) (message (merged h)))"
  have s2: "?s2 = run h (ls0 @ Handle e # ls1) init" by (simp add: run_append)
  have c2: "consistent ?s2" unfolding s2 by (rule consistent_reachable)
  show ?thesis
  proof (cases "truthyFlag (skipIfIncompleteTodos (merged h))")
    case False
    have u: "ungated ?s2" unfolding s2 by (rule ungated_reachable [OF False])
    have nn: "sid \<notin> notifiedSessions ?s2" using u fires by (auto simp: ungated_def)
    have na: "sid \<notin> sessionActivitySinceIdle ?s2"
      using c2 fires unfolding consistent_def by blast
    have us: "unstarted sid t ?s2" by (rule consistent_unstarted [OF c2 fires])
    let ?s = "?s2\<lparr> timers := (timers ?s2)(t := None),
                    pendingTimers := (pendingTimers ?s2)(sid := None) \<rparr>"
    have "step h (Fire t) ?s2 = commitAndSend h t sid ?s"
      using fires nn na False by (simp add: executeNotification_def Let_def)
    moreover have "sent t [?n] (commitAndSend h t sid ?s)"
      using us by (intro sent_commitAndSend) (simp_all add: unstarted_def notificationsBy_entriesBy)
    ultimately have "sent t [?n] (run h ls3 (step h (Fire t) ?s2))"
      by (simp add: sent_run)
    then show ?thesis using False by (simp add: sent_def)
  next
    case True
    let ?sG = "run h ls2 (step h (Fire t) ?s2)"
    have sG: "?sG = run h (ls0 @ Handle e # ls1 @ Fire t # ls2) init" by (simp add: run_append)
    have cG: "consistent ?sG" unfolding sG by (rule consistent_reachable)
    have oG: "once ?sG" unfolding sG by (rule once_reachable)
    have r: "routines ?sG t = Some (AwaitTodo sid)" and ok: "\<not> hasIncompleteTodos r"
      using gate True by simp_all
    have lt: "t < nextTimer ?sG" "timers ?sG t = None"
      using cG r unfolding consistent_def by auto
    have n: "notificationsBy t (log ?sG) = []" using oG r by (simp add: once_def)
    let ?s = "?sG\<lparr> routines := (routines ?sG)(t := None) \<rparr>"
    have "step h (TodoDone t r) ?sG = commitAndSend h t sid ?s"
      using r ok by (simp add: afterTodo_def)
    moreover have "sent t [?n] (commitAndSend h t sid ?s)"
      using lt n by (intro sent_commitAndSend) simp_all
    ultimately have "sent t [?n] (run h ls3 (step h (TodoDone t r) ?sG))"
      by (simp add: sent_run)
    then show ?thesis using True by (simp add: sent_def)
  qed
qed

section \<open>One notification per idle episode\<close>

lemma notificationsFor_snoc:
  "notificationsFor sid (lg @ [e]) =
     (if session e = sid \<and> isSend (call e) then notificationsFor sid lg @ [e]
      else notificationsFor sid lg)"
  by (simp add: notificationsFor_def)

lemma notified_cancel:
  "notifiedSessions (cancelPendingNotification x s) = notifiedSessions s"
  by (cases "pendingTimers s x") (simp_all add: cancel_None cancel_Some)

lemma notified_onActivity:
  "v \<noteq> Some sid \<Longrightarrow> sid \<in> notifiedSessions s \<Longrightarrow> sid \<in> notifiedSessions (onActivity v s)"
  by (cases "truthy v")
    (auto simp: onActivity_def markSessionActivity_def Let_def notified_cancel truthy_Some)

lemma notified_onDeleted:
  "v \<noteq> Some sid \<Longrightarrow> sid \<in> notifiedSessions s \<Longrightarrow> sid \<in> notifiedSessions (onDeleted v s)"
  by (cases "truthy v") (auto simp: onDeleted_def Let_def notified_cancel truthy_Some)

lemma notified_onIdle: "notifiedSessions (onIdle v s) = notifiedSessions s"
  by (cases "truthy v") (simp_all add: onIdle_def setTimeout_def)

lemma notified_kept:
  assumes "\<not> isActivityFor sid e" "\<not> isDeletedFor sid e" "sid \<in> notifiedSessions s"
  shows "sid \<in> notifiedSessions (handler h e s)"
proof (cases "currentPlatform h = Unsupported")
  case True
  then show ?thesis using assms by (simp add: handler_cases)
next
  case sup: False
  show ?thesis
  proof (cases "ev_type e = ''session.updated'' \<or> ev_type e = ''session.created''")
    case True
    then have "info_id e \<noteq> Some sid" using assms(1) by (auto simp: isActivityFor_def)
    then show ?thesis using True sup assms(3) by (simp add: handler_cases notified_onActivity)
  next
    case na: False
    show ?thesis
    proof (cases "ev_type e = ''session.idle''")
      case True
      then show ?thesis using sup na assms(3) by (simp add: handler_cases notified_onIdle)
    next
      case ni: False
      show ?thesis
      proof (cases "ev_type e = ''message.updated''")
        case True
        then have "info_sessionID e \<noteq> Some sid" using assms(1) by (auto simp: isActivityFor_def)
        then show ?thesis using True sup na ni assms(3)
          by (simp add: handler_cases notified_onActivity)
      next
        case nm: False
        show ?thesis
        proof (cases "ev_type e = ''session.deleted''")
          case True
          then have "info_id e \<noteq> Some sid" using assms(2) by (auto simp: isDeletedFor_def)
          then show ?thesis using True sup na ni nm assms(3)
            by (simp add: handler_cases notified_onDeleted)
        next
          case False
          then show ?thesis using sup na ni nm assms(3) by (simp add: handler_cases)
        qed
      qed
    qed
  qed
qed

lemma ungated_quiet_step:
  assumes c: "consistent s" and u: "ungated s" and g: "\<not> truthyFlag (skipIfIncompleteTodos (merged h))"
    and q: "\<not> isActivity sid l" "\<not> isDeletion sid l"
  shows "(sid \<in> notifiedSessions s \<longrightarrow>
            sid \<in> notifiedSessions (step h l s)
            \<and> notificationsFor sid (log (step h l s)) = notificationsFor sid (log s))
       \<and> (notificationsFor sid (log (step h l s)) = notificationsFor sid (log s)
          \<or> sid \<in> notifiedSessions (step h l s)
            \<and> length (notificationsFor sid (log (step h l s)))
                = Suc (length (notificationsFor sid (log s))))"
proof (cases l)
  case (Handle e)
  then show ?thesis using q notified_kept [of sid e s h] by (simp add: log_handler)
next
  case (Fire t)
  show ?thesis
  proof (cases "timers s t")
    case None
    then show ?thesis using Fire by simp
  next
    case (Some x)
    then have nx: "x \<notin> notifiedSessions s" using u by (auto simp: ungated_def)
    have ax: "x \<notin> sessionActivitySinceIdle s" using c Some unfolding consistent_def by blast
    show ?thesis using Fire Some nx ax g
      by (auto simp: executeNotification_def Let_def commitAndSend_def perform_def
          notificationsFor_snoc)
  qed
next
  case (TodoDone t r)
  then show ?thesis using u by (auto simp: ungated_def split: option.splits stage.splits)
next
  case (SendDone t a b)
  then show ?thesis
    by (auto simp: afterSend_def tryDispatch_def perform_def notificationsFor_snoc
        split: option.splits stage.splits)
qed

lemma ungated_quiet_run:
  assumes g: "\<not> truthyFlag (skipIfIncompleteTodos (merged h))"
  shows "consistent s \<Longrightarrow> ungated s \<Longrightarrow>
         \<forall>l \<in> set ls. \<not> isActivity sid l \<and> \<not> isDeletion sid l \<Longrightarrow>
         (sid \<in> notifiedSessions s \<longrightarrow>
            notificationsFor sid (log (run h ls s)) = notificationsFor sid (log s))
         \<and> length (notificationsFor sid (log (run h ls s)))
             \<le> Suc (length (notificationsFor sid (log s)))"
proof (induction ls arbitrary: s)
  case Nil
  then show ?case by simp
next
  case (Cons l ls)
  have q: "\<not> isActivity sid l" "\<not> isDeletion sid l" using Cons.prems(3) by simp_all
  have c': "consistent (step h l s)" by (rule consistent_step [OF Cons.prems(1)])
  have u': "ungated (step h l s)" by (rule ungated_step [OF Cons.prems(2) Cons.prems(1) g])
  have rest: "\<forall>l \<in> set ls. \<not> isActivity sid l \<and> \<not> isDeletion sid l"
    using Cons.prems(3) by simp
  note ih = Cons.IH [OF c' u' rest]
  note st = ungated_quiet_step [OF Cons.prems(1) Cons.prems(2) g q]
  show ?case using ih st by auto
qed

text \<open>
  With \<open>skipIfIncompleteTodos\<close> off the routine reaches
  \<open>notifiedSessions.add(sessionID)\<close> without an \<open>await\<close>. Then, from any state of any
  execution, a stretch of steps without an activity or deletion event for a session sends
  at most one notification for it.
\<close>

lemma one_notification_between_activity:
  assumes "\<not> truthyFlag (skipIfIncompleteTodos (merged h))"
    and "\<forall>l \<in> set ls. \<not> isActivity sid l \<and> \<not> isDeletion sid l"
  shows "length (notificationsFor sid (log (run h ls (run h ls0 init))))
           \<le> Suc (length (notificationsFor sid (log (run h ls0 init))))"
  using ungated_quiet_run [OF assms(1) consistent_reachable ungated_reachable [OF assms(1)] assms(2)]
  by simp

text \<open>
  Claim C1 says that at most one notification is dispatched per idle episode, an episode
  beginning with a \<open>session.idle\<close> event that finds no timer pending and \<open>notified\<close>
  false, and ending at the next activity or deletion event for the session. With
  \<open>skipIfIncompleteTodos\<close> on, which is the default, the code does not keep this. The
  routine deletes the \<open>pendingTimers\<close> entry in its first line and adds the session to
  \<open>notifiedSessions\<close> only after \<open>await hasIncompleteTodos\<close>; a \<open>session.idle\<close> event
  that arrives in between passes both guards of the handler and arms a second timer, and
  the routine does not test \<open>notifiedSessions\<close> again after the \<open>await\<close>. In the
  execution below the first event begins an episode, no activity or deletion event
  follows, and \<open>sendNotification\<close> is called twice for the session.
\<close>

theorem duplicate_notification:
  "truthyFlag (skipIfIncompleteTodos (merged linuxHook))
   \<and> beginsEpisode ''s1'' init (Handle (sessionIdle ''s1''))
   \<and> \<not> isActivity ''s1'' (Handle (sessionIdle ''s1''))
   \<and> \<not> isDeletion ''s1'' (Handle (sessionIdle ''s1''))
   \<and> notificationsFor ''s1'' (log (run linuxHook
        [Handle (sessionIdle ''s1''), Fire 1, Handle (sessionIdle ''s1''), Fire 2,
         TodoDone 1 (WithData []), TodoDone 2 (WithData [])] init))
      = [Entry 1 ''s1'' True (SendNotification Linux (Some ''OpenCode'') (Some ''Agent is ready for input'')),
         Entry 2 ''s1'' True (SendNotification Linux (Some ''OpenCode'') (Some ''Agent is ready for input''))]"
  by (simp add: eval_defs notificationsFor_def isIdleFor_def isActivityFor_def isDeletedFor_def)

section \<open>The confirmation routine across the todo query\<close>

text \<open>
  The three properties below hold of the session on the path that has no \<open>await\<close>
  between \<open>pendingTimers.delete(sessionID)\<close> and \<open>notifiedSessions.add(sessionID)\<close>,
  that is with \<open>skipIfIncompleteTodos\<close> off, and fail on the path that has it.
\<close>

subsection \<open>The log only grows\<close>

lemma log_step: "\<exists>es. log (step h l s) = log s @ es"
proof (cases l)
  case (Handle e)
  then show ?thesis by (simp add: log_handler)
next
  case (Fire t)
  then show ?thesis
    by (cases "timers s t") (simp_all add: executeNotification_def Let_def commitAndSend_def perform_def)
next
  case (TodoDone t r)
  then show ?thesis
    by (auto simp: afterTodo_def commitAndSend_def perform_def Let_def
        split: option.splits stage.splits)
next
  case (SendDone t a b)
  then show ?thesis
    by (auto simp: afterSend_def tryDispatch_def perform_def split: option.splits stage.splits)
qed

lemma notificationsFor_step:
  "length (notificationsFor sid (log s)) \<le> length (notificationsFor sid (log (step h l s)))"
proof -
  obtain es where "log (step h l s) = log s @ es" using log_step by blast
  then show ?thesis by (simp add: notificationsFor_def)
qed

lemma notificationsFor_run:
  "length (notificationsFor sid (log s)) \<le> length (notificationsFor sid (log (run h ls s)))"
proof (induction ls arbitrary: s)
  case Nil
  then show ?case by simp
next
  case (Cons l ls)
  show ?case using notificationsFor_step [of sid s h l] Cons.IH [of "step h l s"] by simp
qed

lemma log_run: "\<exists>es. log (run h ls s) = log s @ es"
proof (induction ls arbitrary: s)
  case Nil
  then show ?case by simp
next
  case (Cons l ls)
  obtain es where 1: "log (step h l s) = log s @ es" using log_step by blast
  obtain es' where 2: "log (run h ls (step h l s)) = log (step h l s) @ es'"
    using Cons.IH by blast
  show ?case using 1 2 by simp
qed

subsection \<open>Without the gate: a pending timer and the log\<close>

lemma fire_ungated:
  assumes c: "consistent s" and u: "ungated s"
    and g: "\<not> truthyFlag (skipIfIncompleteTodos (merged h))" and t: "timers s t = Some sid"
  shows "log (step h (Fire t) s)
           = log s @ [Entry t sid True
               (SendNotification (currentPlatform h) (title (merged h)) (message (merged h)))]"
proof -
  have "sid \<notin> notifiedSessions s" using u t by (auto simp: ungated_def)
  moreover have "sid \<notin> sessionActivitySinceIdle s" using c t unfolding consistent_def by blast
  ultimately show ?thesis using g t
    by (simp add: executeNotification_def Let_def commitAndSend_def perform_def)
qed

lemma timers_cancel_other:
  assumes c: "consistent s" and t: "timers s t = Some sid" and x: "x \<noteq> sid"
  shows "timers (cancelPendingNotification x s) t = Some sid"
proof (cases "pendingTimers s x")
  case None
  then show ?thesis using t by (simp add: cancel_None)
next
  case (Some t')
  then have "timers s t' = Some x" using c unfolding consistent_def by blast
  then have "t' \<noteq> t" using t x by auto
  then show ?thesis using t Some by (simp add: cancel_Some)
qed

lemma timers_onActivity_other:
  assumes "consistent s" "timers s t = Some sid" "v \<noteq> Some sid"
  shows "timers (onActivity v s) t = Some sid"
proof (cases "truthy v")
  case None
  then show ?thesis using assms by (simp add: onActivity_def)
next
  case (Some x)
  then have "x \<noteq> sid" using assms(3) by (auto simp: truthy_Some)
  then show ?thesis using Some timers_cancel_other [OF assms(1,2)]
    by (simp add: onActivity_def markSessionActivity_def Let_def)
qed

lemma timers_onDeleted_other:
  assumes "consistent s" "timers s t = Some sid" "v \<noteq> Some sid"
  shows "timers (onDeleted v s) t = Some sid"
proof (cases "truthy v")
  case None
  then show ?thesis using assms by (simp add: onDeleted_def)
next
  case (Some x)
  then have "x \<noteq> sid" using assms(3) by (auto simp: truthy_Some)
  then show ?thesis using Some timers_cancel_other [OF assms(1,2)]
    by (simp add: onDeleted_def Let_def)
qed

lemma timers_onIdle_kept:
  assumes c: "consistent s" and t: "timers s t = Some sid"
  shows "timers (onIdle v s) t = Some sid"
proof -
  have "t < nextTimer s" using c t unfolding consistent_def by blast
  then show ?thesis using t by (cases "truthy v") (auto simp: onIdle_def setTimeout_def)
qed

lemma timer_kept_handler:
  assumes c: "consistent s" and t: "timers s t = Some sid"
    and q: "\<not> isActivityFor sid e" "\<not> isDeletedFor sid e"
  shows "timers (handler h e s) t = Some sid"
proof (cases "currentPlatform h = Unsupported")
  case True
  then show ?thesis using t by (simp add: handler_cases)
next
  case sup: False
  show ?thesis
  proof (cases "ev_type e = ''session.updated'' \<or> ev_type e = ''session.created''")
    case True
    then have "info_id e \<noteq> Some sid" using q(1) by (auto simp: isActivityFor_def)
    then show ?thesis using True sup timers_onActivity_other [OF c t]
      by (simp add: handler_cases)
  next
    case na: False
    show ?thesis
    proof (cases "ev_type e = ''session.idle''")
      case True
      then show ?thesis using sup na timers_onIdle_kept [OF c t] by (simp add: handler_cases)
    next
      case ni: False
      show ?thesis
      proof (cases "ev_type e = ''message.updated''")
        case True
        then have "info_sessionID e \<noteq> Some sid" using q(1) by (auto simp: isActivityFor_def)
        then show ?thesis using True sup na ni timers_onActivity_other [OF c t]
          by (simp add: handler_cases)
      next
        case nm: False
        show ?thesis
        proof (cases "ev_type e = ''session.deleted''")
          case True
          then have "info_id e \<noteq> Some sid" using q(2) by (auto simp: isDeletedFor_def)
          then show ?thesis using True sup na ni nm timers_onDeleted_other [OF c t]
            by (simp add: handler_cases)
        next
          case False
          then show ?thesis using sup na ni nm t by (simp add: handler_cases)
        qed
      qed
    qed
  qed
qed

lemma timer_kept:
  assumes c: "consistent s" and t: "timers s t = Some sid"
    and q: "l \<noteq> Fire t" "\<not> isActivity sid l" "\<not> isDeletion sid l"
  shows "timers (step h l s) t = Some sid"
proof (cases l)
  case (Handle e)
  then show ?thesis using timer_kept_handler [OF c t] q by simp
next
  case (Fire t')
  then have "t' \<noteq> t" using q(1) by simp
  then show ?thesis using Fire t
    by (cases "timers s t'")
      (simp_all add: executeNotification_def Let_def commitAndSend_def perform_def)
next
  case (TodoDone t' r)
  then show ?thesis using t
    by (auto simp: afterTodo_def commitAndSend_def perform_def Let_def
        split: option.splits stage.splits)
next
  case (SendDone t' a b)
  then show ?thesis using t
    by (auto simp: afterSend_def tryDispatch_def perform_def split: option.splits stage.splits)
qed

lemma ungated_pending_silent:
  assumes c: "consistent s" and u: "ungated s"
    and g: "\<not> truthyFlag (skipIfIncompleteTodos (merged h))"
    and t: "timers s t = Some sid" and q: "l \<noteq> Fire t"
  shows "notificationsFor sid (log (step h l s)) = notificationsFor sid (log s)"
proof (cases l)
  case (Handle e)
  then show ?thesis by (simp add: log_handler)
next
  case (Fire t')
  then have ne: "t' \<noteq> t" using q by simp
  show ?thesis
  proof (cases "timers s t'")
    case None
    then show ?thesis using Fire by simp
  next
    case (Some x)
    have "x \<noteq> sid"
    proof
      assume "x = sid"
      then have "pendingTimers s sid = Some t'" "pendingTimers s sid = Some t"
        using c Some t unfolding consistent_def by blast+
      then show False using ne by simp
    qed
    then show ?thesis using Fire Some
      by (simp add: executeNotification_def Let_def commitAndSend_def perform_def
          notificationsFor_snoc)
  qed
next
  case (TodoDone t' r)
  then show ?thesis using u by (auto simp: ungated_def split: option.splits stage.splits)
next
  case (SendDone t' a b)
  then show ?thesis
    by (auto simp: afterSend_def tryDispatch_def perform_def notificationsFor_snoc
        split: option.splits stage.splits)
qed

lemma ungated_pending_silent_run:
  assumes g: "\<not> truthyFlag (skipIfIncompleteTodos (merged h))"
  shows "consistent s \<Longrightarrow> ungated s \<Longrightarrow> timers s t = Some sid \<Longrightarrow>
         \<forall>l \<in> set ls. l \<noteq> Fire t \<and> \<not> isActivity sid l \<and> \<not> isDeletion sid l \<Longrightarrow>
         timers (run h ls s) t = Some sid
         \<and> notificationsFor sid (log (run h ls s)) = notificationsFor sid (log s)"
proof (induction ls arbitrary: s)
  case Nil
  then show ?case by simp
next
  case (Cons l ls)
  have q: "l \<noteq> Fire t" "\<not> isActivity sid l" "\<not> isDeletion sid l" using Cons.prems(4) by simp_all
  have c': "consistent (step h l s)" by (rule consistent_step [OF Cons.prems(1)])
  have u': "ungated (step h l s)" by (rule ungated_step [OF Cons.prems(2) Cons.prems(1) g])
  have t': "timers (step h l s) t = Some sid"
    by (rule timer_kept [OF Cons.prems(1) Cons.prems(3) q])
  have rest: "\<forall>l \<in> set ls. l \<noteq> Fire t \<and> \<not> isActivity sid l \<and> \<not> isDeletion sid l"
    using Cons.prems(4) by simp
  have n: "notificationsFor sid (log (step h l s)) = notificationsFor sid (log s)"
    by (rule ungated_pending_silent [OF Cons.prems(1) Cons.prems(2) g Cons.prems(3) q(1)])
  show ?case using Cons.IH [OF c' u' t' rest] n by simp
qed

subsection \<open>An idle session is notified: the calls made for the session\<close>

text \<open>
  With \<open>skipIfIncompleteTodos\<close> off: let a \<open>session.idle\<close> event for S leave timer \<open>t\<close>
  pending, and let \<open>t\<close> fire with no activity or deletion event for S before. Then from
  the idle event on, through the firing and any stretch after it without an activity or
  deletion event for S, exactly one \<open>sendNotification\<close> call is made for S, and it
  carries the configured title and message.
\<close>

lemma ungated_exactly_one:
  assumes g: "\<not> truthyFlag (skipIfIncompleteTodos (merged h))"
    and idle: "isIdleFor sid e"
    and pending: "pendingTimers (handler h e (run h ls0 init)) sid = Some t"
    and q1: "\<forall>l \<in> set ls1. l \<noteq> Fire t \<and> \<not> isActivity sid l \<and> \<not> isDeletion sid l"
    and q3: "\<forall>l \<in> set ls3. \<not> isActivity sid l \<and> \<not> isDeletion sid l"
  shows "notificationsFor sid
           (log (run h ls3 (step h (Fire t) (run h ls1 (handler h e (run h ls0 init))))))
         = notificationsFor sid (log (run h ls0 init))
           @ [Entry t sid True
                (SendNotification (currentPlatform h) (title (merged h)) (message (merged h)))]"
proof -
  let ?n = "Entry t sid True
              (SendNotification (currentPlatform h) (title (merged h)) (message (merged h)))"
  let ?s1 = "handler h e (run h ls0 init)"
  let ?s2 = "run h ls1 ?s1"
  let ?s3 = "step h (Fire t) ?s2"
  have s1: "?s1 = run h (ls0 @ [Handle e]) init" by (simp add: run_append)
  have c1: "consistent ?s1" unfolding s1 by (rule consistent_reachable)
  have u1: "ungated ?s1" unfolding s1 by (rule ungated_reachable [OF g])
  have t1: "timers ?s1 t = Some sid" using c1 pending unfolding consistent_def by blast
  have s2: "?s2 = run h (ls0 @ Handle e # ls1) init" by (simp add: run_append)
  have c2: "consistent ?s2" unfolding s2 by (rule consistent_reachable)
  have u2: "ungated ?s2" unfolding s2 by (rule ungated_reachable [OF g])
  have t2: "timers ?s2 t = Some sid"
    and n2: "notificationsFor sid (log ?s2) = notificationsFor sid (log (run h ls0 init))"
    using ungated_pending_silent_run [OF g c1 u1 t1 q1] by (simp_all add: log_handler)
  have "log ?s3 = log ?s2 @ [?n]" by (rule fire_ungated [OF c2 u2 g t2])
  then have n3: "notificationsFor sid (log ?s3) = notificationsFor sid (log ?s2) @ [?n]"
    by (simp add: notificationsFor_def)
  obtain es where es: "log (run h ls3 ?s3) = log ?s3 @ es" using log_run by blast
  have quiet: "\<forall>l \<in> set (Fire t # ls3). \<not> isActivity sid l \<and> \<not> isDeletion sid l"
    using q3 by simp
  have "length (notificationsFor sid (log (run h (Fire t # ls3) ?s2)))
      \<le> Suc (length (notificationsFor sid (log ?s2)))"
    unfolding s2 by (rule one_notification_between_activity [OF g quiet])
  then have "notificationsFor sid es = []"
    using es n3 by (simp add: notificationsFor_def)
  then show ?thesis using es n3 n2 by (simp add: notificationsFor_def)
qed

text \<open>
  Claim C2 says that when no activity event for S arrives between a \<open>session.idle\<close>
  event for S and the firing of the confirmation timer, and the todo gate reports no
  incomplete work, exactly one notify call is made for S. With \<open>skipIfIncompleteTodos\<close>
  on, which is the default, the code does not keep this. In the execution below the
  first event is the \<open>session.idle\<close> event, timer 1 is pending for the session and fires
  with no activity event before, and its routine waits for the todo gate; a second
  \<open>session.idle\<close> event arrives meanwhile and is not ignored, because the routine has
  deleted the \<open>pendingTimers\<close> entry and not yet added the session to
  \<open>notifiedSessions\<close>. The gate then reports no incomplete work to both routines, and
  two \<open>sendNotification\<close> calls are made for the session, with no activity event
  anywhere.
\<close>

theorem idle_notified_twice:
  "truthyFlag (skipIfIncompleteTodos (merged linuxHook))
   \<and> isIdleFor ''s1'' (sessionIdle ''s1'')
   \<and> pendingTimers (handler linuxHook (sessionIdle ''s1'') init) ''s1'' = Some 1
   \<and> \<not> isActivity ''s1'' (Handle (sessionIdle ''s1''))
   \<and> timers (handler linuxHook (sessionIdle ''s1'') init) 1 = Some ''s1''
   \<and> routines (run linuxHook [Fire 1, Handle (sessionIdle ''s1''), Fire 2]
        (handler linuxHook (sessionIdle ''s1'') init)) 1 = Some (AwaitTodo ''s1'')
   \<and> \<not> hasIncompleteTodos (WithData [])
   \<and> notificationsFor ''s1'' (log (run linuxHook
        [Fire 1, Handle (sessionIdle ''s1''), Fire 2,
         TodoDone 1 (WithData []), TodoDone 2 (WithData []),
         SendDone 1 False False, SendDone 2 False False]
        (handler linuxHook (sessionIdle ''s1'') init)))
      = [Entry 1 ''s1'' True
           (SendNotification Linux (Some ''OpenCode'') (Some ''Agent is ready for input'')),
         Entry 2 ''s1'' True
           (SendNotification Linux (Some ''OpenCode'') (Some ''Agent is ready for input''))]"
  by (simp add: eval_defs notificationsFor_def isIdleFor_def isActivityFor_def)

subsection \<open>Activity before the timer fires: the calls made for the session\<close>

text \<open>
  With \<open>skipIfIncompleteTodos\<close> off: let a \<open>session.idle\<close> event for S leave timer \<open>t\<close>
  pending, and let an activity event for S arrive before \<open>t\<close> fires. Then no
  \<open>sendNotification\<close> call is made for S from the idle event to the activity event.
\<close>

lemma ungated_activity_silences:
  assumes g: "\<not> truthyFlag (skipIfIncompleteTodos (merged h))"
    and idle: "isIdleFor sid e"
    and pending: "pendingTimers (handler h e (run h ls0 init)) sid = Some t"
    and quiet: "\<forall>l \<in> set ls1. l \<noteq> Fire t \<and> \<not> isActivity sid l \<and> \<not> isDeletion sid l"
  shows "notificationsFor sid (log (handler h a (run h ls1 (handler h e (run h ls0 init)))))
           = notificationsFor sid (log (run h ls0 init))"
proof -
  let ?s1 = "handler h e (run h ls0 init)"
  have s1: "?s1 = run h (ls0 @ [Handle e]) init" by (simp add: run_append)
  have c1: "consistent ?s1" unfolding s1 by (rule consistent_reachable)
  have u1: "ungated ?s1" unfolding s1 by (rule ungated_reachable [OF g])
  have t1: "timers ?s1 t = Some sid" using c1 pending unfolding consistent_def by blast
  show ?thesis using ungated_pending_silent_run [OF g c1 u1 t1 quiet]
    by (simp add: log_handler)
qed


subsection \<open>A deleted session\<close>

text \<open>
  With \<open>skipIfIncompleteTodos\<close> off: after a \<open>session.deleted\<close> event for S, as long as
  no event naming S is delivered, S has \<open>notified\<close> false, no pending timer and
  \<open>activitySinceIdle\<close> false, whatever else happens; and a \<open>session.idle\<close> event for S
  handled then has the effect on S that it has on a session never seen before.
\<close>

lemma sessionState_sendDone:
  "sessionState (step h (SendDone t a b) s) x = sessionState s x"
  by (auto simp: afterSend_def tryDispatch_def perform_def sessionState_def
      split: option.splits stage.splits)

lemma ungated_forgotten_step:
  assumes c: "consistent s" and u: "ungated s"
    and f: "sessionState s sid = (False, None, False)" and q: "\<not> isEventFor sid l"
  shows "sessionState (step h l s) sid = (False, None, False)"
proof (cases "labelSession s l = Some sid")
  case False
  then show ?thesis using f sessionState_step [of s l sid h] by simp
next
  case True
  show ?thesis
  proof (cases l)
    case (Handle e)
    then show ?thesis using True q by simp
  next
    case (Fire t)
    then have "timers s t = Some sid" using True by simp
    then have "pendingTimers s sid = Some t" using c unfolding consistent_def by blast
    then show ?thesis using f by (simp add: sessionState_def)
  next
    case (TodoDone t r)
    then have "routines s t = Some (AwaitTodo sid)" using True
      by (auto split: option.splits stage.splits)
    then show ?thesis using u by (simp add: ungated_def)
  next
    case (SendDone t a b)
    then show ?thesis using f by (simp only: sessionState_sendDone)
  qed
qed

lemma ungated_forgotten_run:
  assumes g: "\<not> truthyFlag (skipIfIncompleteTodos (merged h))"
  shows "consistent s \<Longrightarrow> ungated s \<Longrightarrow> sessionState s sid = (False, None, False) \<Longrightarrow>
         \<forall>l \<in> set ls. \<not> isEventFor sid l \<Longrightarrow>
         sessionState (run h ls s) sid = (False, None, False)"
proof (induction ls arbitrary: s)
  case Nil
  then show ?case by simp
next
  case (Cons l ls)
  have c': "consistent (step h l s)" by (rule consistent_step [OF Cons.prems(1)])
  have u': "ungated (step h l s)" by (rule ungated_step [OF Cons.prems(2) Cons.prems(1) g])
  have f': "sessionState (step h l s) sid = (False, None, False)"
    using ungated_forgotten_step [OF Cons.prems(1) Cons.prems(2) Cons.prems(3)] Cons.prems(4)
    by simp
  show ?case using Cons.IH [OF c' u' f'] Cons.prems(4) by simp
qed

lemma ungated_deleted_stays_new:
  assumes g: "\<not> truthyFlag (skipIfIncompleteTodos (merged h))"
    and d: "isDeletedFor sid d" and i: "isIdleFor sid i"
    and q: "\<forall>l \<in> set ls. \<not> isEventFor sid l"
  shows "sessionState (run h ls (handler h d (run h ls0 init))) sid = (False, None, False)
       \<and> sessionFlags (handler h i (run h ls (handler h d (run h ls0 init)))) sid
           = sessionFlags (handler h i init) sid"
proof -
  let ?s1 = "handler h d (run h ls0 init)"
  let ?s2 = "run h ls ?s1"
  have s1: "?s1 = run h (ls0 @ [Handle d]) init" by (simp add: run_append)
  have c1: "consistent ?s1" unfolding s1 by (rule consistent_reachable)
  have u1: "ungated ?s1" unfolding s1 by (rule ungated_reachable [OF g])
  have n: "sessionState init sid = (False, None, False)" by (simp add: sessionState_def init_def)
  have f1: "sessionState ?s1 sid = (False, None, False)"
    using deleted_resets [OF d i n, of h ls0] by (rule conjunct1)
  have f2: "sessionState ?s2 sid = (False, None, False)"
    by (rule ungated_forgotten_run [OF g c1 u1 f1 q])
  have flags: "sessionFlags ?s2 sid = sessionFlags init sid"
    using f2 n by (simp add: sessionFlags_def sessionState_def)
  have "sessionFlags (handler h i ?s2) sid = sessionFlags (handler h i init) sid"
  proof (cases "currentPlatform h = Unsupported")
    case True
    then show ?thesis using flags by (simp add: handler_def)
  next
    case sup: False
    show ?thesis
    proof (cases "sid = []")
      case True
      then show ?thesis using flags by (simp add: handler_idle [OF i sup] onIdle_def)
    next
      case ne: False
      show ?thesis using onIdle_fresh [OF ne f2] onIdle_fresh [OF ne n]
        by (simp add: handler_idle [OF i sup] sessionFlags_def sessionState_def)
    qed
  qed
  then show ?thesis using f2 by simp
qed

text \<open>
  Claim C5 says that handling \<open>session.deleted\<close> for S cancels the pending timer and
  clears the three pieces of state of S, so that a subsequent \<open>session.idle\<close> for the
  same identifier behaves exactly as if the session were new. The handler does clear the
  three pieces, but with \<open>skipIfIncompleteTodos\<close> on a routine that waits for the todo
  gate is not stopped by the deletion. In the execution below the session is deleted
  while the routine of timer 1 waits; the three pieces are cleared; then the gate
  answers, and the routine adds the deleted session to \<open>notifiedSessions\<close> and calls
  \<open>sendNotification\<close> for it. No event for the session arrived since the deletion, yet
  the \<open>session.idle\<close> event that follows is ignored: it returns the state unchanged and
  arms no timer, where on a new session it arms one.
\<close>

theorem deleted_session_not_new:
  "isDeletedFor ''s1'' (sessionDeleted ''s1'')
   \<and> isIdleFor ''s1'' (sessionIdle ''s1'')
   \<and> sessionState (handler linuxHook (sessionDeleted ''s1'')
        (run linuxHook [Handle (sessionIdle ''s1''), Fire 1] init)) ''s1'' = (False, None, False)
   \<and> \<not> isEventFor ''s1'' (TodoDone 1 (WithData []))
   \<and> sessionState (run linuxHook [TodoDone 1 (WithData [])]
        (handler linuxHook (sessionDeleted ''s1'')
          (run linuxHook [Handle (sessionIdle ''s1''), Fire 1] init))) ''s1'' = (True, None, False)
   \<and> handler linuxHook (sessionIdle ''s1'') (run linuxHook [TodoDone 1 (WithData [])]
        (handler linuxHook (sessionDeleted ''s1'')
          (run linuxHook [Handle (sessionIdle ''s1''), Fire 1] init)))
      = run linuxHook [TodoDone 1 (WithData [])]
        (handler linuxHook (sessionDeleted ''s1'')
          (run linuxHook [Handle (sessionIdle ''s1''), Fire 1] init))
   \<and> sessionFlags (handler linuxHook (sessionIdle ''s1'') (run linuxHook [TodoDone 1 (WithData [])]
        (handler linuxHook (sessionDeleted ''s1'')
          (run linuxHook [Handle (sessionIdle ''s1''), Fire 1] init)))) ''s1''
      = (True, False, False)
   \<and> sessionFlags (handler linuxHook (sessionIdle ''s1'') init) ''s1'' = (False, True, False)
   \<and> notificationsFor ''s1'' (log (run linuxHook [TodoDone 1 (WithData [])]
        (handler linuxHook (sessionDeleted ''s1'')
          (run linuxHook [Handle (sessionIdle ''s1''), Fire 1] init))))
      = [Entry 1 ''s1'' True
           (SendNotification Linux (Some ''OpenCode'') (Some ''Agent is ready for input''))]"
  by (simp add: eval_defs notificationsFor_def sessionState_def sessionFlags_def
      isIdleFor_def isDeletedFor_def)

end
